theory Spec2Isabelle
  imports Main "HOL-Library.Word" "HOL-Library.Sublist" "HOL-Library.AList"
    "HOL-Library.Char_ord" "HOL-Library.List_Lexorder"
begin

unbundle bit_operations_syntax

section \<open>Go values used by endpoint/fs/fs.go\<close>

text \<open>
  A Go \<open>string\<close> is a sequence of bytes: it is modelled by \<open>string\<close> (a list of 8-bit
  characters). A Go \<open>error\<close> is an interface value; only two things are ever asked of it
  in fs.go: whether it is \<open>nil\<close> and whether \<open>os.IsNotExist\<close> holds of it. A value of
  type \<open>error\<close> that may be \<open>nil\<close> is an \<open>error option\<close>.
\<close>

datatype error =
    ErrNotExist            \<comment> \<open>any error for which \<open>os.IsNotExist\<close> answers true\<close>
  | ErrOther string        \<comment> \<open>any other error of the storage or the operating system\<close>
  | ErrNew string          \<comment> \<open>\<open>errors.New(msg)\<close>\<close>

definition IsNotExist :: "error option \<Rightarrow> bool" where
  "IsNotExist e = (e = Some ErrNotExist)"

text \<open>The string functions of package \<open>strings\<close> that fs.go calls.\<close>

definition TrimLeft :: "string \<Rightarrow> string \<Rightarrow> string" where
  "TrimLeft s cutset = dropWhile (\<lambda>c. c \<in> set cutset) s"

definition TrimPrefix :: "string \<Rightarrow> string \<Rightarrow> string" where
  "TrimPrefix s pre = (if prefix pre s then drop (length pre) s else s)"

definition HasSuffix :: "string \<Rightarrow> string \<Rightarrow> bool" where
  "HasSuffix s suf = suffix suf s"

text \<open>
  \<open>strings.Replace(s, old, new, -1)\<close>: every non-overlapping occurrence of \<open>old\<close>, from
  the left. fs.go only calls it with a separator (one byte) for \<open>old\<close>; for an empty
  \<open>old\<close> (where Go inserts \<open>new\<close> between the runes) the model leaves \<open>s\<close> as it is.
\<close>

function Replace :: "string \<Rightarrow> string \<Rightarrow> string \<Rightarrow> string" where
  "Replace [] old new = []"
| "Replace (c # cs) old new =
     (if old \<noteq> [] \<and> prefix old (c # cs)
      then new @ Replace (drop (length old) (c # cs)) old new
      else c # Replace cs old new)"
  by pat_completeness auto
termination
  by (relation "measure (\<lambda>(s, old, new). length s)") (auto simp: neq_Nil_conv)

section \<open>The platform\<close>

text \<open>
  \<open>runtime.GOOS\<close> and the library functions whose result depends on the platform or on
  tables that are not part of this repository (Unicode normalisation of
  \<open>golang.org/x/text/unicode/norm\<close>, \<open>path/filepath\<close>, \<open>strings.ToLower\<close>, the event
  constants of \<open>github.com/rjeczalik/notify\<close>) are parameters of the model.
\<close>

datatype goos = Darwin | Windows | OtherOS

record platform =
  GOOS :: goos
  NFC :: "string \<Rightarrow> string"                 \<comment> \<open>\<open>norm.NFC.Bytes\<close>\<close>
  NFD :: "string \<Rightarrow> string"                 \<comment> \<open>\<open>norm.NFD.Bytes\<close>\<close>
  EvalSymlinks :: "string \<Rightarrow> error + string" \<comment> \<open>\<open>filepath.EvalSymlinks\<close>\<close>
  VolumeName :: "string \<Rightarrow> string"          \<comment> \<open>\<open>filepath.VolumeName\<close>\<close>
  ToLower :: "string \<Rightarrow> string"             \<comment> \<open>\<open>strings.ToLower\<close>\<close>
  Join :: "string \<Rightarrow> string \<Rightarrow> string"       \<comment> \<open>\<open>filepath.Join\<close> of two elements\<close>
  notify_Create :: "32 word"
  notify_Remove :: "32 word"
  notify_Write :: "32 word"
  notify_Rename :: "32 word"

text \<open>
  Modelled from the spec: \<open>common.InternalPathSeparator\<close> (package \<open>common\<close> is not among the
  sources): the canonical form is forward-slash separated.
\<close>

definition InternalPathSeparator :: string where
  "InternalPathSeparator = ''/''"

text \<open>\<open>string(os.PathSeparator)\<close>: a backslash on Windows, a slash elsewhere.\<close>

definition PathSeparator :: "platform \<Rightarrow> string" where
  "PathSeparator pf = (if GOOS pf = Windows then [CHR 0x5C] else ''/'')"

section \<open>Path normalizer: \<open>init\<close>\<close>

text \<open>The local closure \<open>path\<close> of \<open>init\<close>: \<open>fmt.Sprintf("/%v", strings.TrimLeft(p, sep))\<close>.\<close>

definition path :: "string \<Rightarrow> string" where
  "path p = ''/'' @ TrimLeft p InternalPathSeparator"

text \<open>
  \<open>normalize\<close> and \<open>denormalize\<close> are package variables of function type. \<open>init\<close> assigns
  them in the \<open>macOS\<close> and the \<open>win\<close> case of its switch; the switch has no default, so on
  any other \<open>GOOS\<close> both stay \<open>nil\<close> (\<open>None\<close>), and calling them panics.
\<close>

definition normalize :: "platform \<Rightarrow> (string \<Rightarrow> string) option" where
  "normalize pf =
     (case GOOS pf of
        Darwin \<Rightarrow> Some (\<lambda>p. NFC pf (path p))
      | Windows \<Rightarrow> Some (\<lambda>p. Replace (path p) (PathSeparator pf) InternalPathSeparator)
      | OtherOS \<Rightarrow> None)"

definition denormalize :: "platform \<Rightarrow> (string \<Rightarrow> string) option" where
  "denormalize pf =
     (case GOOS pf of
        Darwin \<Rightarrow> Some (\<lambda>p. NFD pf (path p))
      | Windows \<Rightarrow> Some (\<lambda>p. Replace (path p) InternalPathSeparator (PathSeparator pf))
      | OtherOS \<Rightarrow> None)"

text \<open>
  A call of a function variable: \<open>None\<close> is the panic of calling a \<open>nil\<close> function.
\<close>

definition call :: "(string \<Rightarrow> string) option \<Rightarrow> string \<Rightarrow> string option" where
  "call f p = map_option (\<lambda>g. g p) f"

text \<open>The round trip of the spec: \<open>toCanonical(toNative(p))\<close>.\<close>

definition roundtrip :: "platform \<Rightarrow> string \<Rightarrow> string option" where
  "roundtrip pf p = Option.bind (call (denormalize pf) p) (call (normalize pf))"

section \<open>Storage backend and endpoint\<close>

text \<open>
  \<open>os.FileInfo\<close>, as far as fs.go reads it in the functions modelled here.
\<close>

record FileInfo =
  fiSize :: int
  fiIsDir :: bool

text \<open>
  An open file (\<open>afero.File\<close>): the name it was opened on and whether the handle accepts
  writes.
\<close>

record File =
  fName :: string
  fWritable :: bool

text \<open>
  \<open>afero.Fs\<close> is an interface: the endpoint never sees more of its storage than these
  operations. \<open>'s\<close> is the state of the storage, passed explicitly; an operation that
  changes the storage returns the new state. \<open>Walk\<close> stands for \<open>afero.Walk(fs, root, f)\<close>: the
  paths with which the callback is called, in order. \<open>WriteFile\<close> stands for
  \<open>afero.WriteFile(fs, name, data, perm)\<close>, and \<open>FileWrite\<close> for the method \<open>Write\<close> of a file
  that the storage has opened. \<open>IsMemMapFs\<close> is the dynamic type test
  \<open>reflect.TypeOf(c.FS) == reflect.TypeOf(afero.NewMemMapFs())\<close>.
\<close>

record 's Fs =
  Stat :: "'s \<Rightarrow> string \<Rightarrow> error + FileInfo"
  MkdirAll :: "'s \<Rightarrow> string \<Rightarrow> error option \<times> 's"
  Rename :: "'s \<Rightarrow> string \<Rightarrow> string \<Rightarrow> error option \<times> 's"
  Create :: "'s \<Rightarrow> string \<Rightarrow> (error + File) \<times> 's"
  Open :: "'s \<Rightarrow> string \<Rightarrow> error + File"
  WriteFile :: "'s \<Rightarrow> string \<Rightarrow> string \<Rightarrow> error option \<times> 's"
  FileWrite :: "'s \<Rightarrow> File \<Rightarrow> string \<Rightarrow> error option \<times> 's"
  Walk :: "'s \<Rightarrow> string \<Rightarrow> string list"
  IsMemMapFs :: bool

record 's FSClient =
  RootPath :: string
  FS :: "'s Fs"

text \<open>The error of a \<open>(value, error)\<close> result, \<open>nil\<close> when there is a value.\<close>

definition err_of :: "error + 'a \<Rightarrow> error option" where
  "err_of r = (case r of Inl e \<Rightarrow> Some e | Inr v \<Rightarrow> None)"

section \<open>Raw-event translator\<close>

text \<open>A raw notification (\<open>notify.EventInfo\<close>): its path and its event bitmask.\<close>

record raw_event =
  evPath :: string
  evEvent :: "32 word"

text \<open>
  Modelled from the spec: \<open>common.EventInfo\<close> and its event types (package \<open>common\<close> is not
  among the sources). The fields are those fs.go assigns; the type enumeration is the one
  of the spec's ChangeEvent. \<open>PathSyncSource\<close> is a reference to the endpoint (here: its
  root path), \<open>nil\<close> in the zero value.
\<close>

datatype EventType = EventCreate | EventWrite | EventRename | EventRemove

record EventInfo =
  Time :: string
  Size :: int
  Folder :: bool
  Path :: string
  Type :: EventType
  PathSyncSource :: "string option"

text \<open>
  The zero value \<open>common.EventInfo{}\<close> (variable \<open>empty\<close>). Which event type is the zero of
  the enumeration is not visible in the sources; it plays no role, since every event that
  fs.go builds has a non-nil \<open>PathSyncSource\<close>.
\<close>

definition empty :: EventInfo where
  "empty = \<lparr>Time = [], Size = 0, Folder = False, Path = [], Type = EventCreate,
            PathSyncSource = None\<rparr>"

definition EventTypeCreate :: "platform \<Rightarrow> 32 word list" where
  "EventTypeCreate pf = [notify_Create pf]"

definition EventTypeWrite :: "platform \<Rightarrow> 32 word list" where
  "EventTypeWrite pf = [notify_Write pf]"

definition EventTypeRename :: "platform \<Rightarrow> 32 word list" where
  "EventTypeRename pf = [notify_Rename pf]"

definition EventTypeDelete :: "platform \<Rightarrow> 32 word list" where
  "EventTypeDelete pf = [notify_Remove pf]"

fun isEventType :: "32 word list \<Rightarrow> 32 word \<Rightarrow> bool" where
  "isEventType [] event = False"
| "isEventType (ev # evs) event = (if event AND ev \<noteq> 0 then True else isEventType evs event)"

definition CanonicalPath :: "platform \<Rightarrow> string \<Rightarrow> string" where
  "CanonicalPath pf p =
     (if GOOS pf = Windows then
        (let p1 = TrimLeft p [CHR ''/'', CHR 0x5C] in
         case EvalSymlinks pf p1 of
           Inl e \<Rightarrow> p1
         | Inr q \<Rightarrow>
             if q \<noteq> p1 then
               (let volume = VolumeName pf q in
                if HasSuffix volume '':'' then ToLower pf volume @ TrimPrefix q volume else q)
             else p1)
      else p)"

text \<open>
  \<open>notifyEventToEventInfo\<close>. \<open>tm\<close> is what \<open>now()\<close> returns. The result is \<open>None\<close> when the
  call panics (the \<open>nil\<close> normalizer), and otherwise the pair \<open>(eventInfo, err)\<close>.
\<close>

definition eventPath :: "platform \<Rightarrow> 's FSClient \<Rightarrow> raw_event \<Rightarrow> string" where
  "eventPath pf c event = TrimPrefix (CanonicalPath pf (evPath event)) (RootPath c)"

definition notifyEventToEventInfo ::
  "platform \<Rightarrow> string \<Rightarrow> 's FSClient \<Rightarrow> 's \<Rightarrow> raw_event \<Rightarrow> (EventInfo \<times> error option) option" where
  "notifyEventToEventInfo pf tm c s event =
     (case call (normalize pf) (eventPath pf c event) of
        None \<Rightarrow> None
      | Some normalizedPath \<Rightarrow>
          Some
           (if isEventType (EventTypeCreate pf) (evEvent event)
               \<or> isEventType (EventTypeWrite pf) (evEvent event) then
              (case Stat (FS c) s (eventPath pf c event) of
                 Inl e \<Rightarrow> if IsNotExist (Some e) then (empty, None) else (empty, Some e)
               | Inr i \<Rightarrow>
                   (\<lparr>Time = tm, Size = fiSize i, Folder = fiIsDir i, Path = normalizedPath,
                     Type = EventCreate, PathSyncSource = Some (RootPath c)\<rparr>, None))
            else if isEventType (EventTypeRename pf) (evEvent event) then
              (case Stat (FS c) s (eventPath pf c event) of
                 Inl e \<Rightarrow>
                   if IsNotExist (Some e) then
                     (\<lparr>Time = tm, Size = 0, Folder = False, Path = normalizedPath,
                       Type = EventRemove, PathSyncSource = Some (RootPath c)\<rparr>, None)
                   else (empty, Some e)
               | Inr i \<Rightarrow>
                   (\<lparr>Time = tm, Size = fiSize i, Folder = fiIsDir i, Path = normalizedPath,
                     Type = EventRename, PathSyncSource = Some (RootPath c)\<rparr>, None))
            else if isEventType (EventTypeDelete pf) (evEvent event) then
              (\<lparr>Time = tm, Size = 0, Folder = False, Path = normalizedPath,
                Type = EventRemove, PathSyncSource = Some (RootPath c)\<rparr>, None)
            else (empty, None)))"

text \<open>
  What the second goroutine of \<open>Watch\<close> does with the translator's result: an error goes to
  \<open>errorChan\<close>, an event other than the zero value goes to \<open>eventChan\<close>, and nothing is sent
  otherwise.
\<close>

datatype sent = ToErrorChan error | ToEventChan EventInfo | Nothing

definition forward :: "EventInfo \<times> error option \<Rightarrow> sent" where
  "forward r =
     (case snd r of
        Some e \<Rightarrow> ToErrorChan e
      | None \<Rightarrow> if fst r \<noteq> empty then ToEventChan (fst r) else Nothing)"

section \<open>Node operations\<close>

text \<open>
  Modelled from the spec: \<open>tree.Node\<close> (a type of another repository), with the fields
  that \<open>CreateNode\<close> reads. \<open>IsLeaf\<close> is the method \<open>node.IsLeaf()\<close>.
\<close>

datatype NodeType = NodeType_LEAF | NodeType_COLLECTION

record Node =
  nodePath :: string
  nodeType :: NodeType
  Uuid :: string
  Etag :: string

definition IsLeaf :: "Node \<Rightarrow> bool" where
  "IsLeaf node = (nodeType node = NodeType_LEAF)"

text \<open>
  The operations return \<open>None\<close> when they panic, and otherwise their error together with
  the storage they leave.
\<close>

definition CreateNode ::
  "platform \<Rightarrow> 's FSClient \<Rightarrow> 's \<Rightarrow> Node \<Rightarrow> bool \<Rightarrow> (error option \<times> 's) option" where
  "CreateNode pf c s node updateIfExists =
     (if IsLeaf node then
        Some (Some (ErrNew
          ''This is a DataSyncTarget, use PutNode for leafs instead of CreateNode''), s)
      else
        (case call (denormalize pf) (nodePath node) of
           None \<Rightarrow> None
         | Some fPath \<Rightarrow>
             Some
              (let e = err_of (Stat (FS c) s fPath) in
               if IsNotExist e then
                 (let (err, s1) = MkdirAll (FS c) s fPath;
                      s2 = (if Uuid node \<noteq> [] then
                              snd (WriteFile (FS c) s1 (Join pf fPath ''.__pydio'') (Uuid node))
                            else s1)
                  in (err, s2))
               else (None, s))))"

definition UpdateNode ::
  "platform \<Rightarrow> 's FSClient \<Rightarrow> 's \<Rightarrow> Node \<Rightarrow> (error option \<times> 's) option" where
  "UpdateNode pf c s node = CreateNode pf c s node True"

text \<open>
  \<open>GetWriterOn\<close> and \<open>GetReaderOn\<close> return the pair \<open>(file, error)\<close> as a sum; \<open>GetWriterOn\<close>
  may create the file, so it also returns the storage.
\<close>

definition GetWriterOn ::
  "platform \<Rightarrow> 's FSClient \<Rightarrow> 's \<Rightarrow> string \<Rightarrow> ((error + File) \<times> 's) option" where
  "GetWriterOn pf c s p0 =
     (case call (denormalize pf) p0 of
        None \<Rightarrow> None
      | Some p \<Rightarrow>
          Some
           (let e = err_of (Stat (FS c) s p) in
            if IsNotExist e then Create (FS c) s p else (Open (FS c) s p, s)))"

definition GetReaderOn ::
  "platform \<Rightarrow> 's FSClient \<Rightarrow> 's \<Rightarrow> string \<Rightarrow> (error + File) option" where
  "GetReaderOn pf c s p0 =
     (case call (denormalize pf) p0 of
        None \<Rightarrow> None
      | Some p \<Rightarrow> Some (Open (FS c) s p))"

subsection \<open>Moving\<close>

text \<open>
  The callback that \<open>moveRecursively\<close> hands to \<open>afero.Walk\<close>, run on the paths \<open>ws\<close> that
  the walk visits: it appends the counter to \<open>indexes\<close>, stores the path in the map \<open>moves\<close>
  under the counter and increments the counter. The callback ignores the walk's error.
\<close>

definition collect :: "string list \<Rightarrow> nat list \<times> (nat \<rightharpoonup> string) \<times> nat" where
  "collect ws =
     fold (\<lambda>wPath (indexes, moves, i). (indexes @ [i], moves(i \<mapsto> wPath), i + 1))
       ws ([], Map.empty, 0)"

text \<open>
  The destination of a path of the subtree: \<open>newPath+strings.TrimPrefix(wPath, oldPath)\<close>.
  One iteration of \<open>for key := range indexes\<close>: \<open>key\<close> is the position. A key that the map
  does not hold reads as the empty string. The storage is threaded through; the second
  component records the \<open>Rename\<close> calls made, in order. The error of \<open>Rename\<close> is dropped,
  as in the source.
\<close>

definition dst :: "string \<Rightarrow> string \<Rightarrow> string \<Rightarrow> string" where
  "dst oldPath newPath wPath = newPath @ TrimPrefix wPath oldPath"

definition move_iter ::
  "'s Fs \<Rightarrow> string \<Rightarrow> string \<Rightarrow> (nat \<rightharpoonup> string) \<Rightarrow> nat \<Rightarrow> nat
     \<Rightarrow> 's \<times> (string \<times> string) list \<Rightarrow> 's \<times> (string \<times> string) list" where
  "move_iter fs oldPath newPath moves total_len key0 st =
     (let key = total_len - key0;
          wPath = (case moves key of None \<Rightarrow> [] | Some w \<Rightarrow> w)
      in if length wPath = 0 then st
         else (snd (Rename fs (fst st) wPath (dst oldPath newPath wPath)),
               snd st @ [(wPath, dst oldPath newPath wPath)]))"

definition moveRecursively ::
  "'s FSClient \<Rightarrow> 's \<Rightarrow> string \<Rightarrow> string \<Rightarrow> error option \<times> 's \<times> (string \<times> string) list" where
  "moveRecursively c s oldPath newPath =
     (let (indexes, moves, i) = collect (Walk (FS c) s oldPath);
          total_len = length indexes;
          (s1, calls) = fold (move_iter (FS c) oldPath newPath moves total_len)
                          [0..<length indexes] (s, [])
      in (None, snd (Rename (FS c) s1 oldPath newPath), calls @ [(oldPath, newPath)]))"

text \<open>
  \<open>MoveNode\<close>. When \<open>Stat\<close> fails with an error other than not-found, \<open>stat\<close> is \<open>nil\<close> and
  \<open>stat.IsDir()\<close> panics. The result of \<open>moveRecursively\<close> is dropped. Besides the error and
  the storage, the model returns the \<open>Rename\<close> calls made.
\<close>

definition MoveNode ::
  "platform \<Rightarrow> 's FSClient \<Rightarrow> 's \<Rightarrow> string \<Rightarrow> string
     \<Rightarrow> (error option \<times> 's \<times> (string \<times> string) list) option" where
  "MoveNode pf c s oldPath0 newPath0 =
     (case call (denormalize pf) oldPath0 of
        None \<Rightarrow> None
      | Some oldPath \<Rightarrow>
         (case call (denormalize pf) newPath0 of
            None \<Rightarrow> None
          | Some newPath \<Rightarrow>
             (let r = Stat (FS c) s oldPath in
              if \<not> IsNotExist (err_of r) then
                (case r of
                   Inl e \<Rightarrow> None
                 | Inr stat \<Rightarrow>
                     if fiIsDir stat \<and> IsMemMapFs (FS c) then
                       (let (e1, s1, calls) = moveRecursively c s oldPath newPath
                        in Some (None, s1, calls))
                     else
                       (let (err, s1) = Rename (FS c) s oldPath newPath
                        in Some (err, s1, [(oldPath, newPath)])))
              else Some (None, s, []))))"

text \<open>A sequence of \<open>Rename\<close> calls on a storage, their errors dropped.\<close>

definition apply_calls :: "'s Fs \<Rightarrow> (string \<times> string) list \<Rightarrow> 's \<Rightarrow> 's" where
  "apply_calls fs calls s = fold (\<lambda>(a, b) s. snd (Rename fs s a b)) calls s"

section \<open>An in-memory storage\<close>

text \<open>
  Modelled from the spec: the in-memory implementation of the storage contract (spec,
  sections 4.4 and 6; in the source it is \<open>afero.MemMapFs\<close>, a library that is not part of
  this repository). It is the backend without atomic rename of a subtree: a table from
  full paths to entries, where \<open>Rename\<close> relocates the one entry it names and nothing below
  it. An entry that is stored gets its missing ancestor directories created.
\<close>

datatype entry = Dir | Regular string

type_synonym memfs = "(string \<times> entry) list"

text \<open>
  The ancestors of a path: the root (for a path that starts with the separator) and each
  part of the path that ends before a separator.
\<close>

definition parents :: "char \<Rightarrow> string \<Rightarrow> string list" where
  "parents sep p =
     filter (\<lambda>q. q \<noteq> p)
       (map (\<lambda>i. take (max i 1) p) (filter (\<lambda>i. p ! i = sep) [0..<length p]))"

definition mkdir1 :: "string \<Rightarrow> memfs \<Rightarrow> memfs" where
  "mkdir1 q s = (if map_of s q = None then AList.update q Dir s else s)"

definition register :: "char \<Rightarrow> string \<Rightarrow> memfs \<Rightarrow> memfs" where
  "register sep p s = fold mkdir1 (parents sep p) s"

definition mem_Stat :: "memfs \<Rightarrow> string \<Rightarrow> error + FileInfo" where
  "mem_Stat s p =
     (case map_of s p of
        None \<Rightarrow> Inl ErrNotExist
      | Some Dir \<Rightarrow> Inr \<lparr>fiSize = 0, fiIsDir = True\<rparr>
      | Some (Regular d) \<Rightarrow> Inr \<lparr>fiSize = int (length d), fiIsDir = False\<rparr>)"

definition mem_MkdirAll :: "char \<Rightarrow> memfs \<Rightarrow> string \<Rightarrow> error option \<times> memfs" where
  "mem_MkdirAll sep s p = (None, mkdir1 p (register sep p s))"

definition mem_Rename :: "char \<Rightarrow> memfs \<Rightarrow> string \<Rightarrow> string \<Rightarrow> error option \<times> memfs" where
  "mem_Rename sep s old new =
     (if old = new then (None, s)
      else
        (case map_of s old of
           None \<Rightarrow> (Some ErrNotExist, s)
         | Some e \<Rightarrow> (None, register sep new (AList.update new e (AList.delete old s)))))"

definition mem_Create :: "char \<Rightarrow> memfs \<Rightarrow> string \<Rightarrow> (error + File) \<times> memfs" where
  "mem_Create sep s p =
     (Inr \<lparr>fName = p, fWritable = True\<rparr>, register sep p (AList.update p (Regular []) s))"

text \<open>\<open>Open\<close> opens for reading only.\<close>

definition mem_Open :: "memfs \<Rightarrow> string \<Rightarrow> error + File" where
  "mem_Open s p =
     (case map_of s p of
        None \<Rightarrow> Inl ErrNotExist
      | Some e \<Rightarrow> Inr \<lparr>fName = p, fWritable = False\<rparr>)"

definition mem_WriteFile :: "char \<Rightarrow> memfs \<Rightarrow> string \<Rightarrow> string \<Rightarrow> error option \<times> memfs" where
  "mem_WriteFile sep s p d = (None, register sep p (AList.update p (Regular d) s))"

text \<open>Writing through a file: refused on a handle that was opened for reading.\<close>

definition mem_FileWrite :: "memfs \<Rightarrow> File \<Rightarrow> string \<Rightarrow> error option \<times> memfs" where
  "mem_FileWrite s f d =
     (if fWritable f then
        (case map_of s (fName f) of
           Some (Regular old) \<Rightarrow> (None, AList.update (fName f) (Regular (old @ d)) s)
         | _ \<Rightarrow> (Some (ErrOther ''not a regular file''), s))
      else (Some (ErrOther ''file handle is read only''), s))"

text \<open>
  The pre-order walk with the names of a directory in increasing order: the root, then
  the paths of the table below it, ordered by the sequence of their names. For a root
  that the table does not hold the callback is called once, with the root and the error.
\<close>

fun splitOn :: "char \<Rightarrow> string \<Rightarrow> string list" where
  "splitOn sep [] = [[]]"
| "splitOn sep (c # cs) =
     (if c = sep then [] # splitOn sep cs
      else (case splitOn sep cs of [] \<Rightarrow> [[c]] | w # ws \<Rightarrow> (c # w) # ws))"

definition below :: "char \<Rightarrow> string \<Rightarrow> string \<Rightarrow> bool" where
  "below sep root k = (root \<in> set (parents sep k))"

definition mem_Walk :: "char \<Rightarrow> memfs \<Rightarrow> string \<Rightarrow> string list" where
  "mem_Walk sep s root =
     (case map_of s root of
        None \<Rightarrow> [root]
      | Some e \<Rightarrow>
          root # sort_key (splitOn sep) (remdups (filter (below sep root) (map fst s))))"

definition MemMapFs :: "char \<Rightarrow> memfs Fs" where
  "MemMapFs sep =
     \<lparr>Stat = mem_Stat, MkdirAll = mem_MkdirAll sep, Rename = mem_Rename sep,
      Create = mem_Create sep, Open = mem_Open, WriteFile = mem_WriteFile sep,
      FileWrite = mem_FileWrite, Walk = mem_Walk sep, IsMemMapFs = True\<rparr>"

section \<open>Example platforms and storages\<close>

text \<open>
  Two platforms on which the library functions are taken at ASCII paths without symbolic
  links (normalisation and \<open>EvalSymlinks\<close> change nothing there), with some event constants.
\<close>

definition darwin_pf :: platform where
  "darwin_pf =
     \<lparr>GOOS = Darwin, NFC = (\<lambda>p. p), NFD = (\<lambda>p. p), EvalSymlinks = (\<lambda>p. Inr p),
      VolumeName = (\<lambda>p. []), ToLower = (\<lambda>p. p), Join = (\<lambda>a b. a @ ''/'' @ b),
      notify_Create = 0x100, notify_Remove = 0x200, notify_Write = 0x1000,
      notify_Rename = 0x800\<rparr>"

definition windows_pf :: platform where
  "windows_pf = darwin_pf\<lparr>GOOS := Windows, Join := (\<lambda>a b. a @ [CHR 0x5C] @ b)\<rparr>"

definition other_pf :: platform where
  "other_pf = darwin_pf\<lparr>GOOS := OtherOS\<rparr>"

text \<open>
  An in-memory endpoint, and a tree: the directory \<open>/a\<close> with its marker file, the file
  \<open>/a/f\<close> (content \<open>v1\<close>), the directory \<open>/a/d\<close> and the file \<open>/a/d/g\<close>.
\<close>

definition mem_client :: "memfs FSClient" where
  "mem_client = \<lparr>RootPath = ''/root'', FS = MemMapFs CHR ''/''\<rparr>"

definition tree1 :: memfs where
  "tree1 = [(''/'', Dir), (''/a'', Dir), (''/a/.__pydio'', Regular ''id-1''),
            (''/a/f'', Regular ''v1''), (''/a/d'', Dir), (''/a/d/g'', Regular ''x'')]"

text \<open>
  A storage on disk that refuses every change (a read-only file system). It holds the
  directory \<open>/a\<close> and the file \<open>/a/f\<close> of two bytes, and has one path whose status cannot
  be read.
\<close>

definition ro_Stat :: "unit \<Rightarrow> string \<Rightarrow> error + FileInfo" where
  "ro_Stat s p =
     (if p = ''/'' \<or> p = ''/a'' then Inr \<lparr>fiSize = 0, fiIsDir = True\<rparr>
      else if p = ''/a/f'' then Inr \<lparr>fiSize = 2, fiIsDir = False\<rparr>
      else if p = ''/locked/x'' then Inl (ErrOther ''permission denied'')
      else Inl ErrNotExist)"

definition ro_Open :: "unit \<Rightarrow> string \<Rightarrow> error + File" where
  "ro_Open s p =
     (case ro_Stat s p of
        Inl e \<Rightarrow> Inl e
      | Inr i \<Rightarrow> Inr \<lparr>fName = p, fWritable = False\<rparr>)"

definition ReadOnlyFs :: "unit Fs" where
  "ReadOnlyFs =
     \<lparr>Stat = ro_Stat,
      MkdirAll = (\<lambda>s p. (Some (ErrOther ''read-only file system''), s)),
      Rename = (\<lambda>s a b. (Some (ErrOther ''read-only file system''), s)),
      Create = (\<lambda>s p. (Inl (ErrOther ''read-only file system''), s)),
      Open = ro_Open,
      WriteFile = (\<lambda>s p d. (Some (ErrOther ''read-only file system''), s)),
      FileWrite = (\<lambda>s f d. (Some (ErrOther ''read-only file system''), s)),
      Walk = (\<lambda>s p. [p]), IsMemMapFs = False\<rparr>"

definition ro_client :: "unit FSClient" where
  "ro_client = \<lparr>RootPath = ''/root'', FS = ReadOnlyFs\<rparr>"

section \<open>Watch: the two goroutines of a session\<close>

text \<open>
  The body of the loop of the second goroutine of \<open>Watch\<close>, for one raw event read from
  \<open>out\<close>: an ignored path is skipped, any other event is translated and the result
  forwarded. \<open>isIgnored\<close> stands for \<open>common.IsIgnoredFile\<close> (package \<open>common\<close> is not among the
  sources). \<open>None\<close> is a panic of the translator.
\<close>

definition watch_body ::
  "platform \<Rightarrow> string \<Rightarrow> 's FSClient \<Rightarrow> 's \<Rightarrow> (string \<Rightarrow> bool) \<Rightarrow> raw_event \<Rightarrow> sent option" where
  "watch_body pf tm c s isIgnored event =
     (if isIgnored (evPath event) then Some Nothing
      else map_option forward (notifyEventToEventInfo pf tm c s event))"

text \<open>
  The session after \<open>notify.Watch\<close> has succeeded. The first goroutine waits for \<open>doneChan\<close>,
  calls \<open>notify.Stop(in)\<close>, closes \<open>eventChan\<close> and then \<open>errorChan\<close>: one step each. The second
  goroutine is either at the receive of \<open>range out\<close> or at a send of what it has
  translated. \<open>eventChan\<close> and \<open>errorChan\<close> are unbuffered: a send happens when the consumer
  takes the value (the consumer is always ready here), and a send on a closed channel
  panics, as Go defines it. \<open>w_out\<close> holds the raw events that the pipe of \<open>PipeChan\<close> has
  accepted and not yet handed over; \<open>notify.Stop\<close> ends the arrival of new ones, and neither
  \<open>in\<close> nor \<open>out\<close> is ever closed.
\<close>

datatype closer_pc = C_wait | C_stop | C_close_event | C_close_error | C_done

datatype translator_pc = T_recv | T_send sent | T_panicked

record watch_state =
  w_done :: bool
  w_stopped :: bool
  w_out :: "raw_event list"
  w_closer :: closer_pc
  w_translator :: translator_pc
  w_eventClosed :: bool
  w_errorClosed :: bool
  w_events :: "EventInfo list"
  w_errors :: "error list"
  w_sendOnClosed :: bool

datatype watch_actor = Caller_done | Notify raw_event | Closer | Translator

definition watch_init :: watch_state where
  "watch_init =
     \<lparr>w_done = False, w_stopped = False, w_out = [], w_closer = C_wait,
      w_translator = T_recv, w_eventClosed = False, w_errorClosed = False,
      w_events = [], w_errors = [], w_sendOnClosed = False\<rparr>"

text \<open>
  \<open>Watch\<close> up to the start of the two goroutines. \<open>notifyErr\<close> is the result of
  \<open>notify.Watch\<close>. On the in-memory storage no goroutine is started and the channels of
  the session never carry anything; when \<open>notify.Watch\<close> fails there is no session.
\<close>

datatype watch_result = W_inert | W_failed error | W_session watch_state

definition Watch ::
  "platform \<Rightarrow> 's FSClient \<Rightarrow> string \<Rightarrow> error option \<Rightarrow> watch_result option" where
  "Watch pf c recursivePath notifyErr =
     (case call (denormalize pf) recursivePath of
        None \<Rightarrow> None
      | Some rp \<Rightarrow>
          Some (if IsMemMapFs (FS c) then W_inert
                else (case notifyErr of
                        Some e \<Rightarrow> W_failed e
                      | None \<Rightarrow> W_session watch_init)))"

text \<open>
  One step of an actor; an actor that cannot move (a blocked receive, the goroutine that
  has finished or panicked) leaves the state as it is.
\<close>

fun watch_step :: "(raw_event \<Rightarrow> sent option) \<Rightarrow> watch_actor \<Rightarrow> watch_state \<Rightarrow> watch_state" where
  "watch_step body Caller_done w = w\<lparr>w_done := True\<rparr>"
| "watch_step body (Notify e) w =
     (if w_stopped w then w else w\<lparr>w_out := w_out w @ [e]\<rparr>)"
| "watch_step body Closer w =
     (case w_closer w of
        C_wait \<Rightarrow> if w_done w then w\<lparr>w_closer := C_stop\<rparr> else w
      | C_stop \<Rightarrow> w\<lparr>w_stopped := True, w_closer := C_close_event\<rparr>
      | C_close_event \<Rightarrow> w\<lparr>w_eventClosed := True, w_closer := C_close_error\<rparr>
      | C_close_error \<Rightarrow> w\<lparr>w_errorClosed := True, w_closer := C_done\<rparr>
      | C_done \<Rightarrow> w)"
| "watch_step body Translator w =
     (case w_translator w of
        T_recv \<Rightarrow>
          (case w_out w of
             [] \<Rightarrow> w
           | e # es \<Rightarrow>
               (case body e of
                  None \<Rightarrow> w\<lparr>w_out := es, w_translator := T_panicked\<rparr>
                | Some Nothing \<Rightarrow> w\<lparr>w_out := es\<rparr>
                | Some x \<Rightarrow> w\<lparr>w_out := es, w_translator := T_send x\<rparr>))
      | T_send (ToEventChan ev) \<Rightarrow>
          if w_eventClosed w then w\<lparr>w_translator := T_panicked, w_sendOnClosed := True\<rparr>
          else w\<lparr>w_events := w_events w @ [ev], w_translator := T_recv\<rparr>
      | T_send (ToErrorChan e) \<Rightarrow>
          if w_errorClosed w then w\<lparr>w_translator := T_panicked, w_sendOnClosed := True\<rparr>
          else w\<lparr>w_errors := w_errors w @ [e], w_translator := T_recv\<rparr>
      | T_send Nothing \<Rightarrow> w\<lparr>w_translator := T_recv\<rparr>
      | T_panicked \<Rightarrow> w)"

definition watch_run :: "(raw_event \<Rightarrow> sent option) \<Rightarrow> watch_actor list \<Rightarrow> watch_state \<Rightarrow> watch_state" where
  "watch_run body sched w = fold (watch_step body) sched w"

section \<open>PipeChan: the growable event buffer\<close>

text \<open>
  A buffered Go channel: the values it holds (oldest first), its capacity, and whether
  it has been closed. \<open>len(c)\<close> is the length of \<open>buf\<close>. A send appends when there is room
  and blocks otherwise; a receive takes the oldest value, and on an empty channel it
  blocks unless the channel is closed; a send on a closed channel and the close of a
  closed channel panic.
\<close>

record 'a chan =
  buf :: "'a list"
  cap :: nat
  closed :: bool

definition make_chan :: "nat \<Rightarrow> 'a chan" where
  "make_chan n = \<lparr>buf = [], cap = n, closed = False\<rparr>"

text \<open>
  The first goroutine of \<open>PipeChan\<close>, by the statement it is about to execute; \<open>elem\<close> is
  the loop variable. \<open>close(currCh)\<close> and the \<open>make\<close> after it are one step (\<open>make\<close> touches
  nothing that another goroutine can see); each read of \<open>len(currCh)\<close> is a step of its
  own.
\<close>

datatype 'a pump_pc =
    P_make                  \<comment> \<open>\<open>currCh := make(chan notify.EventInfo, capacity)\<close>\<close>
  | P_push                  \<comment> \<open>\<open>channels <- currCh\<close>\<close>
  | P_range                 \<comment> \<open>\<open>for elem := range inputCh\<close>\<close>
  | P_check1 'a             \<comment> \<open>\<open>if len(currCh) >= cap(currCh)/2\<close>\<close>
  | P_grow 'a               \<comment> \<open>\<open>close(currCh); currCh = make(..., cap(currCh)*2)\<close>\<close>
  | P_push_grow 'a          \<comment> \<open>\<open>channels <- currCh\<close>\<close>
  | P_check2a 'a            \<comment> \<open>\<open>if len(currCh) >= capacity &&\<close>\<close>
  | P_check2b 'a            \<comment> \<open>\<open>len(currCh) <= cap(currCh)/4\<close>\<close>
  | P_shrink 'a             \<comment> \<open>\<open>close(currCh); currCh = make(..., cap(currCh)/2)\<close>\<close>
  | P_push_shrink 'a        \<comment> \<open>\<open>channels <- currCh\<close>\<close>
  | P_send 'a               \<comment> \<open>\<open>currCh <- elem\<close>\<close>
  | P_close_curr            \<comment> \<open>\<open>close(currCh)\<close>\<close>
  | P_close_channels        \<comment> \<open>\<open>close(channels)\<close>\<close>
  | P_done

text \<open>The second goroutine; its \<open>currCh\<close> is the argument of \<open>D_range\<close> and \<open>D_send\<close>.\<close>

datatype 'a drain_pc =
    D_next                  \<comment> \<open>\<open>currCh, ok := <-channels\<close>\<close>
  | D_range nat             \<comment> \<open>\<open>for v := range currCh\<close>\<close>
  | D_send nat 'a           \<comment> \<open>\<open>outputCh <- v\<close>\<close>
  | D_close                 \<comment> \<open>\<open>close(outputCh)\<close>\<close>
  | D_done

text \<open>
  The state of a pipe. The channels that the first goroutine makes are kept in \<open>segs\<close>,
  in the order of their creation, and a channel value is its position there. \<open>pending\<close>
  are the events that the sender on \<open>inputCh\<close> has not sent yet (it closes \<open>inputCh\<close> after
  the last one), \<open>received\<close> those that the reader of \<open>outputCh\<close> has taken, and \<open>sawClosed\<close>
  tells that the reader has found \<open>outputCh\<close> closed. \<open>panic\<close> records a send on a closed
  channel or a second close.
\<close>

record 'a pipe =
  capacity :: nat
  pending :: "'a list"
  inputCh :: "'a chan"
  segs :: "'a chan list"
  channels :: "nat chan"
  outputCh :: "'a chan"
  currCh :: nat
  pump :: "'a pump_pc"
  drain :: "'a drain_pc"
  received :: "'a list"
  sawClosed :: bool
  panic :: bool

definition PipeChan :: "nat \<Rightarrow> 'a list \<Rightarrow> 'a pipe" where
  "PipeChan n evs =
     \<lparr>capacity = n, pending = evs, inputCh = make_chan n, segs = [],
      channels = make_chan 1000, outputCh = make_chan n, currCh = 0,
      pump = P_make, drain = D_next, received = [], sawClosed = False, panic = False\<rparr>"

datatype actor = Sender | Pump | Drain | Reader

text \<open>Closing a segment, and the effect of a send by the first goroutine.\<close>

definition close_seg :: "nat \<Rightarrow> 'a chan list \<Rightarrow> 'a chan list" where
  "close_seg i cs = cs[i := (cs ! i)\<lparr>closed := True\<rparr>]"

text \<open>
  One step of the sender: it sends the next event when \<open>inputCh\<close> has room, and closes
  \<open>inputCh\<close> when it has sent them all. \<open>None\<close>: the actor cannot move now.
\<close>

definition sender_step :: "'a pipe \<Rightarrow> 'a pipe option" where
  "sender_step s =
     (case pending s of
        x # xs \<Rightarrow>
          if closed (inputCh s) then Some (s\<lparr>panic := True\<rparr>)
          else if length (buf (inputCh s)) < cap (inputCh s)
          then Some (s\<lparr>pending := xs, inputCh := (inputCh s)\<lparr>buf := buf (inputCh s) @ [x]\<rparr>\<rparr>)
          else None
      | [] \<Rightarrow>
          if closed (inputCh s) then None
          else Some (s\<lparr>inputCh := (inputCh s)\<lparr>closed := True\<rparr>\<rparr>))"

text \<open>One step of the reader of \<open>outputCh\<close>.\<close>

definition reader_step :: "'a pipe \<Rightarrow> 'a pipe option" where
  "reader_step s =
     (case buf (outputCh s) of
        v # vs \<Rightarrow> Some (s\<lparr>outputCh := (outputCh s)\<lparr>buf := vs\<rparr>, received := received s @ [v]\<rparr>)
      | [] \<Rightarrow>
          if closed (outputCh s) \<and> \<not> sawClosed s then Some (s\<lparr>sawClosed := True\<rparr>)
          else None)"

text \<open>
  \<open>channels <- currCh\<close>, continuing at \<open>pc\<close>.
\<close>

definition push_curr :: "'a pump_pc \<Rightarrow> 'a pipe \<Rightarrow> 'a pipe option" where
  "push_curr pc s =
     (if closed (channels s) then Some (s\<lparr>panic := True\<rparr>)
      else if length (buf (channels s)) < cap (channels s)
      then Some (s\<lparr>channels := (channels s)\<lparr>buf := buf (channels s) @ [currCh s]\<rparr>, pump := pc\<rparr>)
      else None)"

text \<open>
  \<open>close(currCh); currCh = make(chan notify.EventInfo, n)\<close>, continuing at \<open>pc\<close>.
\<close>

definition rotate_seg :: "nat \<Rightarrow> 'a pump_pc \<Rightarrow> 'a pipe \<Rightarrow> 'a pipe option" where
  "rotate_seg n pc s =
     (if closed (segs s ! currCh s) then Some (s\<lparr>panic := True\<rparr>)
      else Some (s\<lparr>segs := close_seg (currCh s) (segs s) @ [make_chan n],
                   currCh := length (segs s), pump := pc\<rparr>))"

definition pump_step :: "'a pipe \<Rightarrow> 'a pipe option" where
  "pump_step s =
     (case pump s of
        P_make \<Rightarrow>
          Some (s\<lparr>segs := segs s @ [make_chan (capacity s)], currCh := length (segs s),
                  pump := P_push\<rparr>)
      | P_push \<Rightarrow> push_curr P_range s
      | P_range \<Rightarrow>
          (case buf (inputCh s) of
             e # es \<Rightarrow> Some (s\<lparr>inputCh := (inputCh s)\<lparr>buf := es\<rparr>, pump := P_check1 e\<rparr>)
           | [] \<Rightarrow> if closed (inputCh s) then Some (s\<lparr>pump := P_close_curr\<rparr>) else None)
      | P_check1 e \<Rightarrow>
          if length (buf (segs s ! currCh s)) \<ge> cap (segs s ! currCh s) div 2
          then Some (s\<lparr>pump := P_grow e\<rparr>)
          else Some (s\<lparr>pump := P_check2a e\<rparr>)
      | P_grow e \<Rightarrow> rotate_seg (cap (segs s ! currCh s) * 2) (P_push_grow e) s
      | P_push_grow e \<Rightarrow> push_curr (P_check2a e) s
      | P_check2a e \<Rightarrow>
          if length (buf (segs s ! currCh s)) \<ge> capacity s
          then Some (s\<lparr>pump := P_check2b e\<rparr>)
          else Some (s\<lparr>pump := P_send e\<rparr>)
      | P_check2b e \<Rightarrow>
          if length (buf (segs s ! currCh s)) \<le> cap (segs s ! currCh s) div 4
          then Some (s\<lparr>pump := P_shrink e\<rparr>)
          else Some (s\<lparr>pump := P_send e\<rparr>)
      | P_shrink e \<Rightarrow> rotate_seg (cap (segs s ! currCh s) div 2) (P_push_shrink e) s
      | P_push_shrink e \<Rightarrow> push_curr (P_send e) s
      | P_send e \<Rightarrow>
          if closed (segs s ! currCh s) then Some (s\<lparr>panic := True\<rparr>)
          else if length (buf (segs s ! currCh s)) < cap (segs s ! currCh s)
          then Some (s\<lparr>segs := (segs s)[currCh s :=
                           (segs s ! currCh s)\<lparr>buf := buf (segs s ! currCh s) @ [e]\<rparr>],
                       pump := P_range\<rparr>)
          else None
      | P_close_curr \<Rightarrow>
          if closed (segs s ! currCh s) then Some (s\<lparr>panic := True\<rparr>)
          else Some (s\<lparr>segs := close_seg (currCh s) (segs s), pump := P_close_channels\<rparr>)
      | P_close_channels \<Rightarrow>
          if closed (channels s) then Some (s\<lparr>panic := True\<rparr>)
          else Some (s\<lparr>channels := (channels s)\<lparr>closed := True\<rparr>, pump := P_done\<rparr>)
      | P_done \<Rightarrow> None)"

definition drain_step :: "'a pipe \<Rightarrow> 'a pipe option" where
  "drain_step s =
     (case drain s of
        D_next \<Rightarrow>
          (case buf (channels s) of
             c # cs \<Rightarrow> Some (s\<lparr>channels := (channels s)\<lparr>buf := cs\<rparr>, drain := D_range c\<rparr>)
           | [] \<Rightarrow> if closed (channels s) then Some (s\<lparr>drain := D_close\<rparr>) else None)
      | D_range c \<Rightarrow>
          (case buf (segs s ! c) of
             v # vs \<Rightarrow> Some (s\<lparr>segs := (segs s)[c := (segs s ! c)\<lparr>buf := vs\<rparr>],
                              drain := D_send c v\<rparr>)
           | [] \<Rightarrow> if closed (segs s ! c) then Some (s\<lparr>drain := D_next\<rparr>) else None)
      | D_send c v \<Rightarrow>
          if closed (outputCh s) then Some (s\<lparr>panic := True\<rparr>)
          else if length (buf (outputCh s)) < cap (outputCh s)
          then Some (s\<lparr>outputCh := (outputCh s)\<lparr>buf := buf (outputCh s) @ [v]\<rparr>,
                       drain := D_range c\<rparr>)
          else None
      | D_close \<Rightarrow>
          if closed (outputCh s) then Some (s\<lparr>panic := True\<rparr>)
          else Some (s\<lparr>outputCh := (outputCh s)\<lparr>closed := True\<rparr>, drain := D_done\<rparr>)
      | D_done \<Rightarrow> None)"

fun pipe_step :: "actor \<Rightarrow> 'a pipe \<Rightarrow> 'a pipe option" where
  "pipe_step Sender s = sender_step s"
| "pipe_step Pump s = pump_step s"
| "pipe_step Drain s = drain_step s"
| "pipe_step Reader s = reader_step s"

text \<open>
  A schedule is the order in which the actors get their turns; a turn of an actor that
  cannot move changes nothing. Every interleaving of the goroutines with the sender and
  with a reader of any pace is the run of some schedule.
\<close>

definition turn :: "actor \<Rightarrow> 'a pipe \<Rightarrow> 'a pipe" where
  "turn a s = (case pipe_step a s of None \<Rightarrow> s | Some s' \<Rightarrow> s')"

definition pipe_run :: "actor list \<Rightarrow> 'a pipe \<Rightarrow> 'a pipe" where
  "pipe_run sched s = fold turn sched s"


text \<open>The event that a goroutine has taken from one channel and not yet put into the next.\<close>

fun holding :: "'a pump_pc \<Rightarrow> 'a list" where
  "holding (P_check1 e) = [e]"
| "holding (P_grow e) = [e]"
| "holding (P_push_grow e) = [e]"
| "holding (P_check2a e) = [e]"
| "holding (P_check2b e) = [e]"
| "holding (P_shrink e) = [e]"
| "holding (P_push_shrink e) = [e]"
| "holding (P_send e) = [e]"
| "holding P_make = []"
| "holding P_push = []"
| "holding P_range = []"
| "holding P_close_curr = []"
| "holding P_close_channels = []"
| "holding P_done = []"

fun draining :: "'a drain_pc \<Rightarrow> 'a list" where
  "draining (D_send c v) = [v]"
| "draining D_next = []"
| "draining (D_range c) = []"
| "draining D_close = []"
| "draining D_done = []"

text \<open>
  All events of a pipe, from the oldest to the newest: those already read, those in
  \<open>outputCh\<close>, the one the second goroutine holds, those in the segments in the order of
  their creation, the one the first goroutine holds, those in \<open>inputCh\<close>, those not yet sent.
\<close>

definition in_flight :: "'a pipe \<Rightarrow> 'a list" where
  "in_flight s =
     received s @ buf (outputCh s) @ draining (drain s) @ concat (map buf (segs s))
       @ holding (pump s) @ buf (inputCh s) @ pending s"

text \<open>
  How many segments have been sent on \<open>channels\<close> (all but the one just made), the
  segment that the second goroutine reads, and the one it will take next.
\<close>

fun unpushed :: "'a pump_pc \<Rightarrow> nat" where
  "unpushed P_push = 1"
| "unpushed (P_push_grow e) = 1"
| "unpushed (P_push_shrink e) = 1"
| "unpushed P_make = 0"
| "unpushed P_range = 0"
| "unpushed (P_check1 e) = 0"
| "unpushed (P_grow e) = 0"
| "unpushed (P_check2a e) = 0"
| "unpushed (P_check2b e) = 0"
| "unpushed (P_shrink e) = 0"
| "unpushed (P_send e) = 0"
| "unpushed P_close_curr = 0"
| "unpushed P_close_channels = 0"
| "unpushed P_done = 0"

definition pushed :: "'a pipe \<Rightarrow> nat" where
  "pushed s = length (segs s) - unpushed (pump s)"

fun reading :: "'a drain_pc \<Rightarrow> nat option" where
  "reading (D_range c) = Some c"
| "reading (D_send c v) = Some c"
| "reading D_next = None"
| "reading D_close = None"
| "reading D_done = None"

definition drain_cur :: "'a pipe \<Rightarrow> nat" where
  "drain_cur s =
     (case reading (drain s) of
        Some c \<Rightarrow> c
      | None \<Rightarrow> pushed s - length (buf (channels s)))"

definition drain_next :: "'a pipe \<Rightarrow> nat" where
  "drain_next s =
     (case reading (drain s) of
        Some c \<Rightarrow> Suc c
      | None \<Rightarrow> pushed s - length (buf (channels s)))"

fun closing :: "'a pump_pc \<Rightarrow> bool" where
  "closing P_close_curr = True"
| "closing P_close_channels = True"
| "closing P_done = True"
| "closing P_make = False"
| "closing P_push = False"
| "closing P_range = False"
| "closing (P_check1 e) = False"
| "closing (P_grow e) = False"
| "closing (P_push_grow e) = False"
| "closing (P_check2a e) = False"
| "closing (P_check2b e) = False"
| "closing (P_shrink e) = False"
| "closing (P_push_shrink e) = False"
| "closing (P_send e) = False"

fun has_room :: "'a pump_pc \<Rightarrow> bool" where
  "has_room (P_push_grow e) = True"
| "has_room (P_check2a e) = True"
| "has_room (P_check2b e) = True"
| "has_room (P_push_shrink e) = True"
| "has_room (P_send e) = True"
| "has_room P_make = False"
| "has_room P_push = False"
| "has_room P_range = False"
| "has_room (P_check1 e) = False"
| "has_room (P_grow e) = False"
| "has_room (P_shrink e) = False"
| "has_room P_close_curr = False"
| "has_room P_close_channels = False"
| "has_room P_done = False"

fun may_shrink :: "'a pump_pc \<Rightarrow> bool" where
  "may_shrink (P_check2b e) = True"
| "may_shrink (P_shrink e) = True"
| "may_shrink P_make = False"
| "may_shrink P_push = False"
| "may_shrink P_range = False"
| "may_shrink (P_check1 e) = False"
| "may_shrink (P_grow e) = False"
| "may_shrink (P_push_grow e) = False"
| "may_shrink (P_check2a e) = False"
| "may_shrink (P_push_shrink e) = False"
| "may_shrink (P_send e) = False"
| "may_shrink P_close_curr = False"
| "may_shrink P_close_channels = False"
| "may_shrink P_done = False"

text \<open>
  The invariant of the runs of a pipe that was opened for the events \<open>evs\<close>, in parts:
  the events and their order; the queue of segments; the segments that are drained;
  the segment the first goroutine works on; which segments are closed; the capacities;
  the room in the current segment; the input side; the closing down.
\<close>

definition inv_flow :: "'a list \<Rightarrow> 'a pipe \<Rightarrow> bool" where
  "inv_flow evs s = (in_flight s = evs)"

definition inv_queue :: "'a pipe \<Rightarrow> bool" where
  "inv_queue s =
     (buf (channels s) = [drain_next s..<pushed s] \<and> drain_next s \<le> pushed s
      \<and> pushed s \<le> length (segs s))"

definition inv_drained :: "'a pipe \<Rightarrow> bool" where
  "inv_drained s = (\<forall>i < drain_cur s. buf (segs s ! i) = [] \<and> closed (segs s ! i))"

definition inv_curr :: "'a pipe \<Rightarrow> bool" where
  "inv_curr s =
     ((pump s = P_make) = (segs s = [])
      \<and> (segs s \<noteq> [] \<longrightarrow> currCh s = length (segs s) - 1))"

definition inv_closed :: "'a pipe \<Rightarrow> bool" where
  "inv_closed s =
     (\<forall>i < length (segs s). closed (segs s ! i)
        = (Suc i < length (segs s) \<or> pump s = P_close_channels \<or> pump s = P_done))"

definition inv_caps :: "'a pipe \<Rightarrow> bool" where
  "inv_caps s =
     ((\<forall>i < length (segs s). 1 \<le> cap (segs s ! i))
      \<and> 1 \<le> capacity s \<and> cap (inputCh s) = capacity s \<and> cap (outputCh s) = capacity s
      \<and> cap (channels s) = 1000)"

definition inv_room :: "'a pipe \<Rightarrow> bool" where
  "inv_room s =
     ((has_room (pump s) \<longrightarrow> length (buf (segs s ! currCh s)) < cap (segs s ! currCh s))
      \<and> (may_shrink (pump s) \<longrightarrow> 2 \<le> cap (segs s ! currCh s)))"

definition inv_input :: "'a pipe \<Rightarrow> bool" where
  "inv_input s =
     ((closed (inputCh s) \<longrightarrow> pending s = [])
      \<and> (closing (pump s) \<longrightarrow> closed (inputCh s) \<and> buf (inputCh s) = []))"

definition inv_down :: "'a pipe \<Rightarrow> bool" where
  "inv_down s =
     (closed (channels s) = (pump s = P_done)
      \<and> (drain s = D_close \<or> drain s = D_done \<longrightarrow> pump s = P_done \<and> buf (channels s) = [])
      \<and> closed (outputCh s) = (drain s = D_done)
      \<and> (sawClosed s \<longrightarrow> closed (outputCh s) \<and> buf (outputCh s) = [])
      \<and> \<not> panic s)"

definition pipe_inv :: "'a list \<Rightarrow> 'a pipe \<Rightarrow> bool" where
  "pipe_inv evs s =
     (inv_flow evs s \<and> inv_queue s \<and> inv_drained s \<and> inv_curr s \<and> inv_closed s
      \<and> inv_caps s \<and> inv_room s \<and> inv_input s \<and> inv_down s)"

text \<open>
  A bound on the number of steps that are still possible: each event counts for the
  steps that can still move it, each segment for the two steps in which the second
  goroutine takes it and leaves it, each goroutine for the steps that remain from where
  it stands.
\<close>

fun pump_rank :: "'a pump_pc \<Rightarrow> nat" where
  "pump_rank P_make = 7"
| "pump_rank P_push = 4"
| "pump_rank P_range = 3"
| "pump_rank (P_check1 e) = 18"
| "pump_rank (P_grow e) = 17"
| "pump_rank (P_push_grow e) = 14"
| "pump_rank (P_check2a e) = 13"
| "pump_rank (P_check2b e) = 12"
| "pump_rank (P_shrink e) = 11"
| "pump_rank (P_push_shrink e) = 8"
| "pump_rank (P_send e) = 7"
| "pump_rank P_close_curr = 2"
| "pump_rank P_close_channels = 1"
| "pump_rank P_done = 0"

fun drain_rank :: "'a drain_pc \<Rightarrow> nat" where
  "drain_rank D_next = 2"
| "drain_rank (D_range c) = 3"
| "drain_rank (D_send c v) = 5"
| "drain_rank D_close = 1"
| "drain_rank D_done = 0"

definition weight :: "'a pipe \<Rightarrow> nat" where
  "weight s =
     17 * length (pending s) + 16 * length (buf (inputCh s))
     + (if closed (inputCh s) then 0 else 1)
     + pump_rank (pump s)
     + 2 * (length (segs s) - drain_next s)
     + 3 * length (concat (map buf (segs s)))
     + drain_rank (drain s)
     + length (buf (outputCh s))
     + (if sawClosed s then 0 else 1)"

section \<open>Facts about the in-memory storage and the examples\<close>

lemmas example_defs =
  eventPath_def CanonicalPath_def darwin_pf_def windows_pf_def other_pf_def
  mem_client_def ro_client_def TrimPrefix_def call_def normalize_def denormalize_def path_def
  TrimLeft_def InternalPathSeparator_def PathSeparator_def EventTypeCreate_def
  EventTypeWrite_def EventTypeRename_def EventTypeDelete_def MemMapFs_def mem_Stat_def
  tree1_def ReadOnlyFs_def ro_Stat_def ro_Open_def

lemma forward_event:
  "PathSyncSource ev \<noteq> None \<Longrightarrow> forward (ev, None) = ToEventChan ev"
  by (auto simp: forward_def empty_def)

lemma map_of_mkdir1:
  "map_of (mkdir1 q s) k = (if k = q \<and> map_of s q = None then Some Dir else map_of s k)"
  by (simp add: mkdir1_def update_conv')

lemma map_of_fold_mkdir1:
  "map_of (fold mkdir1 qs s) k
     = (if k \<in> set qs \<and> map_of s k = None then Some Dir else map_of s k)"
proof (induction qs arbitrary: s)
  case Nil
  show ?case by simp
next
  case (Cons q qs)
  show ?case by (auto simp: Cons.IH map_of_mkdir1)
qed

lemma map_of_register:
  "map_of (register sep p s) k
     = (if k \<in> set (parents sep p) \<and> map_of s k = None then Some Dir else map_of s k)"
  by (simp add: register_def map_of_fold_mkdir1)

lemma parents_neq: "q \<in> set (parents sep p) \<Longrightarrow> q \<noteq> p"
  by (simp add: parents_def)

lemma mem_Stat_NotExist: "IsNotExist (err_of (mem_Stat s p)) = (map_of s p = None)"
  by (simp add: mem_Stat_def err_of_def IsNotExist_def split: option.splits entry.splits)

section \<open>Raw-event translator: Create and Write\<close>

text \<open>
  Claim C1, as the code has it. On a platform whose normalizer \<open>init\<close> installs, a raw
  notification whose bitmask matches Create or Write and whose target can be stat-ed
  yields exactly one event, which \<open>Watch\<close> forwards to the event channel. Its size and
  folder flag are those of the stat result. Its type is \<open>EventCreate\<close> in both cases: the
  branch is shared and the type does not follow the raw event.
\<close>

theorem C1_create_or_write_emits_create:
  assumes "call (normalize pf) (eventPath pf c event) = Some np"
    and "isEventType (EventTypeCreate pf) (evEvent event)
         \<or> isEventType (EventTypeWrite pf) (evEvent event)"
    and "Stat (FS c) s (eventPath pf c event) = Inr i"
  shows "\<exists>ev. notifyEventToEventInfo pf tm c s event = Some (ev, None)
           \<and> forward (ev, None) = ToEventChan ev
           \<and> Type ev = EventCreate \<and> Size ev = fiSize i \<and> Folder ev = fiIsDir i
           \<and> Path ev = np \<and> Time ev = tm"
  using assms by (auto simp: notifyEventToEventInfo_def forward_event)

theorem C1_witness:
  "call (normalize darwin_pf)
      (eventPath darwin_pf ro_client \<lparr>evPath = ''/root/a/f'', evEvent = 0x100\<rparr>) = Some ''/a/f''
   \<and> (isEventType (EventTypeCreate darwin_pf) (evEvent \<lparr>evPath = ''/root/a/f'', evEvent = 0x100\<rparr>)
      \<or> isEventType (EventTypeWrite darwin_pf) (evEvent \<lparr>evPath = ''/root/a/f'', evEvent = 0x100\<rparr>))
   \<and> Stat (FS ro_client) ()
        (eventPath darwin_pf ro_client \<lparr>evPath = ''/root/a/f'', evEvent = 0x100\<rparr>)
       = Inr \<lparr>fiSize = 2, fiIsDir = False\<rparr>
   \<and> (\<exists>ev. notifyEventToEventInfo darwin_pf ''t0'' ro_client ()
               \<lparr>evPath = ''/root/a/f'', evEvent = 0x100\<rparr> = Some (ev, None)
           \<and> forward (ev, None) = ToEventChan ev
           \<and> Type ev = EventCreate \<and> Size ev = 2 \<and> Folder ev = False
           \<and> Path ev = ''/a/f'' \<and> Time ev = ''t0'')"
proof -
  let ?e = "\<lparr>evPath = ''/root/a/f'', evEvent = 0x100\<rparr>"
  have a: "call (normalize darwin_pf) (eventPath darwin_pf ro_client ?e) = Some ''/a/f''"
    by (simp add: example_defs)
  have b: "isEventType (EventTypeCreate darwin_pf) (evEvent ?e)
      \<or> isEventType (EventTypeWrite darwin_pf) (evEvent ?e)"
    by (simp add: example_defs)
  have c: "Stat (FS ro_client) () (eventPath darwin_pf ro_client ?e)
      = Inr \<lparr>fiSize = 2, fiIsDir = False\<rparr>"
    by (simp add: example_defs)
  from C1_create_or_write_emits_create [OF a b c, of "''t0''"] a b c
  show ?thesis by simp
qed

text \<open>
  The claim as stated fails for a Write notification: the event for a raw Write on the
  existing file \<open>/a/f\<close> has type \<open>EventCreate\<close>, not \<open>EventWrite\<close>.
\<close>

theorem C1_counterexample:
  "isEventType (EventTypeWrite darwin_pf) 0x1000
   \<and> \<not> isEventType (EventTypeCreate darwin_pf) 0x1000
   \<and> Stat (FS ro_client) () ''/a/f'' = Inr \<lparr>fiSize = 2, fiIsDir = False\<rparr>
   \<and> notifyEventToEventInfo darwin_pf ''t0'' ro_client ()
        \<lparr>evPath = ''/root/a/f'', evEvent = 0x1000\<rparr>
       = Some (\<lparr>Time = ''t0'', Size = 2, Folder = False, Path = ''/a/f'', Type = EventCreate,
                PathSyncSource = Some ''/root''\<rparr>, None)
   \<and> EventCreate \<noteq> EventWrite"
  by (simp add: notifyEventToEventInfo_def example_defs)

section \<open>Raw-event translator: Rename\<close>

text \<open>
  Claim C3, as the code has it. The Rename branch is reached only by a bitmask that
  matches neither Create nor Write (the branches are tried in that order). For such a
  notification, on a platform whose normalizer \<open>init\<close> installs: when the stat fails with
  not-found the event is a Remove with size zero and no folder flag; when the stat
  succeeds it is a Rename with the size and folder flag of the stat result. Either event
  is forwarded to the event channel.
\<close>

theorem C3_rename_without_create_write:
  assumes "call (normalize pf) (eventPath pf c event) = Some np"
    and "\<not> isEventType (EventTypeCreate pf) (evEvent event)"
    and "\<not> isEventType (EventTypeWrite pf) (evEvent event)"
    and "isEventType (EventTypeRename pf) (evEvent event)"
  shows "(\<forall>e. Stat (FS c) s (eventPath pf c event) = Inl e \<and> IsNotExist (Some e) \<longrightarrow>
            notifyEventToEventInfo pf tm c s event
              = Some (\<lparr>Time = tm, Size = 0, Folder = False, Path = np, Type = EventRemove,
                       PathSyncSource = Some (RootPath c)\<rparr>, None)
            \<and> forward (\<lparr>Time = tm, Size = 0, Folder = False, Path = np, Type = EventRemove,
                         PathSyncSource = Some (RootPath c)\<rparr>, None)
              = ToEventChan \<lparr>Time = tm, Size = 0, Folder = False, Path = np,
                  Type = EventRemove, PathSyncSource = Some (RootPath c)\<rparr>)
       \<and> (\<forall>i. Stat (FS c) s (eventPath pf c event) = Inr i \<longrightarrow>
            notifyEventToEventInfo pf tm c s event
              = Some (\<lparr>Time = tm, Size = fiSize i, Folder = fiIsDir i, Path = np,
                       Type = EventRename, PathSyncSource = Some (RootPath c)\<rparr>, None)
            \<and> forward (\<lparr>Time = tm, Size = fiSize i, Folder = fiIsDir i, Path = np,
                         Type = EventRename, PathSyncSource = Some (RootPath c)\<rparr>, None)
              = ToEventChan \<lparr>Time = tm, Size = fiSize i, Folder = fiIsDir i, Path = np,
                  Type = EventRename, PathSyncSource = Some (RootPath c)\<rparr>)"
  using assms by (auto simp: notifyEventToEventInfo_def forward_event IsNotExist_def)

theorem C3_witness:
  "call (normalize darwin_pf)
      (eventPath darwin_pf ro_client \<lparr>evPath = ''/root/a/zz'', evEvent = 0x800\<rparr>) = Some ''/a/zz''
   \<and> \<not> isEventType (EventTypeCreate darwin_pf) 0x800
   \<and> \<not> isEventType (EventTypeWrite darwin_pf) 0x800
   \<and> isEventType (EventTypeRename darwin_pf) 0x800
   \<and> Stat (FS ro_client) ()
        (eventPath darwin_pf ro_client \<lparr>evPath = ''/root/a/zz'', evEvent = 0x800\<rparr>)
       = Inl ErrNotExist
   \<and> IsNotExist (Some ErrNotExist)
   \<and> notifyEventToEventInfo darwin_pf ''t0'' ro_client ()
        \<lparr>evPath = ''/root/a/zz'', evEvent = 0x800\<rparr>
       = Some (\<lparr>Time = ''t0'', Size = 0, Folder = False, Path = ''/a/zz'', Type = EventRemove,
                PathSyncSource = Some ''/root''\<rparr>, None)
   \<and> Stat (FS ro_client) ()
        (eventPath darwin_pf ro_client \<lparr>evPath = ''/root/a/f'', evEvent = 0x800\<rparr>)
       = Inr \<lparr>fiSize = 2, fiIsDir = False\<rparr>
   \<and> notifyEventToEventInfo darwin_pf ''t0'' ro_client ()
        \<lparr>evPath = ''/root/a/f'', evEvent = 0x800\<rparr>
       = Some (\<lparr>Time = ''t0'', Size = 2, Folder = False, Path = ''/a/f'', Type = EventRename,
                PathSyncSource = Some ''/root''\<rparr>, None)"
proof -
  let ?e = "\<lparr>evPath = ''/root/a/zz'', evEvent = 0x800\<rparr>"
  let ?f = "\<lparr>evPath = ''/root/a/f'', evEvent = 0x800\<rparr>"
  have a: "call (normalize darwin_pf) (eventPath darwin_pf ro_client ?e) = Some ''/a/zz''"
    by (simp add: example_defs)
  have a': "call (normalize darwin_pf) (eventPath darwin_pf ro_client ?f) = Some ''/a/f''"
    by (simp add: example_defs)
  have b: "\<not> isEventType (EventTypeCreate darwin_pf) (evEvent ?e)"
          "\<not> isEventType (EventTypeWrite darwin_pf) (evEvent ?e)"
          "isEventType (EventTypeRename darwin_pf) (evEvent ?e)"
    by (simp_all add: example_defs)
  have b': "\<not> isEventType (EventTypeCreate darwin_pf) (evEvent ?f)"
          "\<not> isEventType (EventTypeWrite darwin_pf) (evEvent ?f)"
          "isEventType (EventTypeRename darwin_pf) (evEvent ?f)"
    by (simp_all add: example_defs)
  have c: "Stat (FS ro_client) () (eventPath darwin_pf ro_client ?e) = Inl ErrNotExist"
    by (simp add: example_defs)
  have c': "Stat (FS ro_client) () (eventPath darwin_pf ro_client ?f)
      = Inr \<lparr>fiSize = 2, fiIsDir = False\<rparr>"
    by (simp add: example_defs)
  have n: "IsNotExist (Some ErrNotExist)" by (simp add: IsNotExist_def)
  from C3_rename_without_create_write [OF a b, of "()" "''t0''"] c n
  have r1: "notifyEventToEventInfo darwin_pf ''t0'' ro_client () ?e
       = Some (\<lparr>Time = ''t0'', Size = 0, Folder = False, Path = ''/a/zz'', Type = EventRemove,
                PathSyncSource = Some ''/root''\<rparr>, None)"
    by (simp add: ro_client_def)
  from C3_rename_without_create_write [OF a' b', of "()" "''t0''"] c'
  have r2: "notifyEventToEventInfo darwin_pf ''t0'' ro_client () ?f
       = Some (\<lparr>Time = ''t0'', Size = 2, Folder = False, Path = ''/a/f'', Type = EventRename,
                PathSyncSource = Some ''/root''\<rparr>, None)"
    by (simp add: ro_client_def)
  from a b c c' n r1 r2 show ?thesis by simp
qed

text \<open>
  The claim as stated fails for a bitmask that matches Rename and Create together: on a
  target that is gone, the Create branch is taken and nothing is emitted, where the claim
  promises a Remove.
\<close>

theorem C3_counterexample:
  "isEventType (EventTypeRename darwin_pf) 0x900
   \<and> Stat (FS ro_client) () ''/a/zz'' = Inl ErrNotExist
   \<and> eventPath darwin_pf ro_client \<lparr>evPath = ''/root/a/zz'', evEvent = 0x900\<rparr> = ''/a/zz''
   \<and> notifyEventToEventInfo darwin_pf ''t0'' ro_client ()
        \<lparr>evPath = ''/root/a/zz'', evEvent = 0x900\<rparr> = Some (empty, None)
   \<and> forward (empty, None) = Nothing"
  by (simp add: notifyEventToEventInfo_def example_defs forward_def IsNotExist_def)

section \<open>Raw-event translator: stat failures of Create and Write\<close>



section \<open>Path normalizer\<close>

text \<open>
  Claim C5 at the input where the code departs from it. On Windows the native form of
  the canonical path \<open>/a\<close> is \<open>\a\<close> (every slash is replaced, the leading one too), and
  its canonical form is \<open>//a\<close>: \<open>path\<close> trims slashes only, puts a slash in front of the
  backslash, and the replacement turns the backslash into a second slash. So the round
  trip does not give the path back. On a \<open>GOOS\<close> other than darwin and windows both
  functions are \<open>nil\<close> and the call panics.
\<close>

theorem C5_roundtrip_windows:
  "call (denormalize windows_pf) ''/a'' = Some [CHR 0x5C, CHR ''a'']
   \<and> call (normalize windows_pf) [CHR 0x5C, CHR ''a''] = Some ''//a''
   \<and> roundtrip windows_pf ''/a'' = Some ''//a''
   \<and> roundtrip other_pf ''/a'' = None"
  by (simp add: roundtrip_def example_defs)

section \<open>Creating and updating nodes\<close>

lemma mem_CreateNode_missing:
  assumes "\<not> IsLeaf node"
    and "call (denormalize pf) (nodePath node) = Some fPath"
    and "IsNotExist (err_of (mem_Stat s fPath))"
    and "Join pf fPath ''.__pydio'' \<noteq> fPath"
  shows "\<exists>s'. CreateNode pf \<lparr>RootPath = r, FS = MemMapFs sep\<rparr> s node u = Some (None, s')
           \<and> map_of s' fPath = Some Dir
           \<and> (\<forall>q \<in> set (parents sep fPath). map_of s' q \<noteq> None)
           \<and> (Uuid node \<noteq> [] \<longrightarrow>
                map_of s' (Join pf fPath ''.__pydio'') = Some (Regular (Uuid node)))"
proof -
  from assms(3) have miss: "map_of s fPath = None" by (simp add: mem_Stat_NotExist)
  let ?s1 = "mkdir1 fPath (register sep fPath s)"
  let ?m = "Join pf fPath ''.__pydio''"
  let ?s2 = "register sep ?m (AList.update ?m (Regular (Uuid node)) ?s1)"
  have s1_f: "map_of ?s1 fPath = Some Dir"
    using miss by (auto simp: map_of_mkdir1 map_of_register)
  have s1_q: "map_of ?s1 q \<noteq> None" if "q \<in> set (parents sep fPath)" for q
    using that by (auto simp: map_of_mkdir1 map_of_register)
  have s2_f: "map_of ?s2 fPath = Some Dir"
    using s1_f assms(4) by (simp add: map_of_register update_conv')
  have s2_q: "map_of ?s2 q \<noteq> None" if "q \<in> set (parents sep fPath)" for q
    using s1_q [OF that] by (auto simp: map_of_register update_conv')
  have s2_m: "map_of ?s2 ?m = Some (Regular (Uuid node))"
    by (simp add: map_of_register update_conv')
  have res: "CreateNode pf \<lparr>RootPath = r, FS = MemMapFs sep\<rparr> s node u
      = Some (None, if Uuid node \<noteq> [] then ?s2 else ?s1)"
    using assms(1,2,3)
    by (simp add: CreateNode_def MemMapFs_def mem_MkdirAll_def mem_WriteFile_def)
  show ?thesis
    unfolding res using s1_f s1_q s2_f s2_q s2_m by auto
qed

text \<open>
  Claim C7, as the code has it. \<open>CreateNode\<close> returns an error for every Leaf, and leaves
  the storage as it was. For a Collection (on a platform whose normalizer \<open>init\<close>
  installs) it returns an error exactly when the path does not exist and \<open>MkdirAll\<close>
  fails, and the error is that of \<open>MkdirAll\<close>; when the path does not exist the storage it
  leaves is that of \<open>MkdirAll\<close> on the native path followed, for a non-empty identifier, by
  the write of the marker file. On the in-memory storage this means: the directory
  exists afterwards, so does each of its ancestors, and the marker file holds the
  identifier.
\<close>

theorem C7_createNode_errors:
  "(IsLeaf node \<longrightarrow> (\<exists>e. CreateNode pf c s node u = Some (Some e, s)))
   \<and> (\<not> IsLeaf node \<and> call (denormalize pf) (nodePath node) = Some fPath \<longrightarrow>
        (\<exists>err s'. CreateNode pf c s node u = Some (err, s')
           \<and> (err \<noteq> None \<longleftrightarrow>
                IsNotExist (err_of (Stat (FS c) s fPath)) \<and> fst (MkdirAll (FS c) s fPath) \<noteq> None)
           \<and> (IsNotExist (err_of (Stat (FS c) s fPath)) \<longrightarrow>
                err = fst (MkdirAll (FS c) s fPath)
                \<and> s' = (if Uuid node \<noteq> []
                        then snd (WriteFile (FS c) (snd (MkdirAll (FS c) s fPath))
                                    (Join pf fPath ''.__pydio'') (Uuid node))
                        else snd (MkdirAll (FS c) s fPath)))))
   \<and> (\<not> IsLeaf node \<and> call (denormalize pf) (nodePath node) = Some fPath
        \<and> IsNotExist (err_of (mem_Stat m fPath)) \<and> Join pf fPath ''.__pydio'' \<noteq> fPath \<longrightarrow>
        (\<exists>m'. CreateNode pf \<lparr>RootPath = r, FS = MemMapFs sep\<rparr> m node u = Some (None, m')
           \<and> map_of m' fPath = Some Dir
           \<and> (\<forall>q \<in> set (parents sep fPath). map_of m' q \<noteq> None)
           \<and> (Uuid node \<noteq> [] \<longrightarrow>
                map_of m' (Join pf fPath ''.__pydio'') = Some (Regular (Uuid node)))))"
proof (intro conjI impI)
  assume "IsLeaf node"
  then show "\<exists>e. CreateNode pf c s node u = Some (Some e, s)"
    by (simp add: CreateNode_def)
next
  assume a: "\<not> IsLeaf node \<and> call (denormalize pf) (nodePath node) = Some fPath"
  show "\<exists>err s'. CreateNode pf c s node u = Some (err, s')
           \<and> (err \<noteq> None \<longleftrightarrow>
                IsNotExist (err_of (Stat (FS c) s fPath)) \<and> fst (MkdirAll (FS c) s fPath) \<noteq> None)
           \<and> (IsNotExist (err_of (Stat (FS c) s fPath)) \<longrightarrow>
                err = fst (MkdirAll (FS c) s fPath)
                \<and> s' = (if Uuid node \<noteq> []
                        then snd (WriteFile (FS c) (snd (MkdirAll (FS c) s fPath))
                                    (Join pf fPath ''.__pydio'') (Uuid node))
                        else snd (MkdirAll (FS c) s fPath)))"
    using a by (cases "MkdirAll (FS c) s fPath") (simp add: CreateNode_def)
next
  assume "\<not> IsLeaf node \<and> call (denormalize pf) (nodePath node) = Some fPath
        \<and> IsNotExist (err_of (mem_Stat m fPath)) \<and> Join pf fPath ''.__pydio'' \<noteq> fPath"
  then show "\<exists>m'. CreateNode pf \<lparr>RootPath = r, FS = MemMapFs sep\<rparr> m node u = Some (None, m')
           \<and> map_of m' fPath = Some Dir
           \<and> (\<forall>q \<in> set (parents sep fPath). map_of m' q \<noteq> None)
           \<and> (Uuid node \<noteq> [] \<longrightarrow>
                map_of m' (Join pf fPath ''.__pydio'') = Some (Regular (Uuid node)))"
    using mem_CreateNode_missing by blast
qed

theorem C7_witness:
  "IsLeaf \<lparr>nodePath = ''/a/f'', nodeType = NodeType_LEAF, Uuid = [], Etag = []\<rparr>
   \<and> (\<exists>e. CreateNode darwin_pf mem_client tree1
              \<lparr>nodePath = ''/a/f'', nodeType = NodeType_LEAF, Uuid = [], Etag = []\<rparr> False
            = Some (Some e, tree1))
   \<and> \<not> IsLeaf \<lparr>nodePath = ''/x/y'', nodeType = NodeType_COLLECTION, Uuid = ''u1'', Etag = []\<rparr>
   \<and> call (denormalize darwin_pf) ''/x/y'' = Some ''/x/y''
   \<and> IsNotExist (err_of (mem_Stat tree1 ''/x/y''))
   \<and> Join darwin_pf ''/x/y'' ''.__pydio'' = ''/x/y/.__pydio''
   \<and> (\<exists>m'. CreateNode darwin_pf \<lparr>RootPath = ''/root'', FS = MemMapFs CHR ''/''\<rparr> tree1
               \<lparr>nodePath = ''/x/y'', nodeType = NodeType_COLLECTION, Uuid = ''u1'', Etag = []\<rparr>
               False = Some (None, m')
           \<and> map_of m' ''/x/y'' = Some Dir
           \<and> map_of m' ''/x'' \<noteq> None
           \<and> map_of m' ''/x/y/.__pydio'' = Some (Regular ''u1''))"
proof -
  let ?L = "\<lparr>nodePath = ''/a/f'', nodeType = NodeType_LEAF, Uuid = [], Etag = []\<rparr>"
  let ?N = "\<lparr>nodePath = ''/x/y'', nodeType = NodeType_COLLECTION, Uuid = ''u1'', Etag = []\<rparr>"
  have l: "IsLeaf ?L" by (simp add: IsLeaf_def)
  have n: "\<not> IsLeaf ?N" by (simp add: IsLeaf_def)
  have d: "call (denormalize darwin_pf) (nodePath ?N) = Some ''/x/y''"
    by (simp add: example_defs)
  have st: "IsNotExist (err_of (mem_Stat tree1 ''/x/y''))"
    by (simp add: example_defs err_of_def IsNotExist_def)
  have j: "Join darwin_pf ''/x/y'' ''.__pydio'' = ''/x/y/.__pydio''"
    by (simp add: darwin_pf_def)
  have par: "''/x'' \<in> set (parents CHR ''/'' ''/x/y'')"
    by (simp add: parents_def)
  note leaf_inst = C7_createNode_errors [of ?L darwin_pf mem_client tree1 False "''/x/y''" tree1
      "''/root''" "CHR ''/''"]
  note coll_inst = C7_createNode_errors [of ?N darwin_pf mem_client tree1 False "''/x/y''" tree1
      "''/root''" "CHR ''/''"]
  from leaf_inst l have 1: "\<exists>e. CreateNode darwin_pf mem_client tree1 ?L False = Some (Some e, tree1)"
    by blast
  from coll_inst n d st j
  have "\<exists>m'. CreateNode darwin_pf \<lparr>RootPath = ''/root'', FS = MemMapFs CHR ''/''\<rparr> tree1 ?N False
              = Some (None, m')
           \<and> map_of m' ''/x/y'' = Some Dir
           \<and> (\<forall>q \<in> set (parents CHR ''/'' ''/x/y''). map_of m' q \<noteq> None)
           \<and> (Uuid ?N \<noteq> [] \<longrightarrow>
                map_of m' (Join darwin_pf ''/x/y'' ''.__pydio'') = Some (Regular (Uuid ?N)))"
    by simp
  with par j
  have 2: "\<exists>m'. CreateNode darwin_pf \<lparr>RootPath = ''/root'', FS = MemMapFs CHR ''/''\<rparr> tree1 ?N False
              = Some (None, m')
           \<and> map_of m' ''/x/y'' = Some Dir
           \<and> map_of m' ''/x'' \<noteq> None
           \<and> map_of m' ''/x/y/.__pydio'' = Some (Regular ''u1'')"
    by auto
  from l 1 n d st j 2 show ?thesis by simp
qed

text \<open>
  The claim as stated fails in its "only if": a Collection gets an error too, when the
  storage cannot create the directory.
\<close>

theorem C7_counterexample:
  "\<not> IsLeaf \<lparr>nodePath = ''/x'', nodeType = NodeType_COLLECTION, Uuid = [], Etag = []\<rparr>
   \<and> CreateNode darwin_pf ro_client ()
        \<lparr>nodePath = ''/x'', nodeType = NodeType_COLLECTION, Uuid = [], Etag = []\<rparr> False
       = Some (Some (ErrOther ''read-only file system''), ())"
  by (simp add: CreateNode_def IsLeaf_def example_defs err_of_def IsNotExist_def)

text \<open>
  Claim C10, as the code has it. For a Collection whose path the storage can stat (or
  whose stat fails for a reason other than not-found), on a platform whose normalizer
  \<open>init\<close> installs, \<open>CreateNode\<close> and \<open>UpdateNode\<close> return \<open>nil\<close> and the storage is exactly
  what it was, whatever identifier the node carries: the marker file is not rewritten.
\<close>

theorem C10_existing_collection_untouched:
  assumes "\<not> IsLeaf node"
    and "call (denormalize pf) (nodePath node) = Some fPath"
    and "\<not> IsNotExist (err_of (Stat (FS c) s fPath))"
  shows "CreateNode pf c s node u = Some (None, s) \<and> UpdateNode pf c s node = Some (None, s)"
  using assms by (simp add: UpdateNode_def CreateNode_def)

theorem C10_witness:
  "\<not> IsLeaf \<lparr>nodePath = ''/a'', nodeType = NodeType_COLLECTION, Uuid = ''id-2'', Etag = []\<rparr>
   \<and> call (denormalize darwin_pf) ''/a'' = Some ''/a''
   \<and> \<not> IsNotExist (err_of (Stat (FS mem_client) tree1 ''/a''))
   \<and> map_of tree1 ''/a/.__pydio'' = Some (Regular ''id-1'')
   \<and> CreateNode darwin_pf mem_client tree1
        \<lparr>nodePath = ''/a'', nodeType = NodeType_COLLECTION, Uuid = ''id-2'', Etag = []\<rparr> False
       = Some (None, tree1)
   \<and> UpdateNode darwin_pf mem_client tree1
        \<lparr>nodePath = ''/a'', nodeType = NodeType_COLLECTION, Uuid = ''id-2'', Etag = []\<rparr>
       = Some (None, tree1)"
proof -
  let ?N = "\<lparr>nodePath = ''/a'', nodeType = NodeType_COLLECTION, Uuid = ''id-2'', Etag = []\<rparr>"
  have n: "\<not> IsLeaf ?N" by (simp add: IsLeaf_def)
  have d: "call (denormalize darwin_pf) (nodePath ?N) = Some ''/a''"
    by (simp add: example_defs)
  have st: "\<not> IsNotExist (err_of (Stat (FS mem_client) tree1 ''/a''))"
    by (simp add: example_defs err_of_def IsNotExist_def)
  have m: "map_of tree1 ''/a/.__pydio'' = Some (Regular ''id-1'')"
    by (simp add: tree1_def)
  from C10_existing_collection_untouched [OF n d st, of False] n d st m
  show ?thesis by simp
qed

text \<open>
  The claim as stated fails for a Leaf: its path may exist, and both operations return
  the error of \<open>CreateNode\<close> for leaves rather than \<open>nil\<close>.
\<close>

theorem C10_counterexample:
  "Stat (FS mem_client) tree1 ''/a/f'' = Inr \<lparr>fiSize = 2, fiIsDir = False\<rparr>
   \<and> call (denormalize darwin_pf) ''/a/f'' = Some ''/a/f''
   \<and> CreateNode darwin_pf mem_client tree1
        \<lparr>nodePath = ''/a/f'', nodeType = NodeType_LEAF, Uuid = [], Etag = []\<rparr> False
       = Some (Some (ErrNew
           ''This is a DataSyncTarget, use PutNode for leafs instead of CreateNode''), tree1)
   \<and> UpdateNode darwin_pf mem_client tree1
        \<lparr>nodePath = ''/a/f'', nodeType = NodeType_LEAF, Uuid = [], Etag = []\<rparr>
       = Some (Some (ErrNew
           ''This is a DataSyncTarget, use PutNode for leafs instead of CreateNode''), tree1)"
  by (simp add: UpdateNode_def CreateNode_def IsLeaf_def example_defs)

section \<open>Writers\<close>

text \<open>
  Claim C8 at the input where the code departs from it. For the existing file \<open>/a/f\<close>,
  \<open>GetWriterOn\<close> calls \<open>Open\<close>, as \<open>GetReaderOn\<close> does: both return the same handle, which
  is opened for reading. A write through it is refused and the file keeps its content.
  For a path that does not exist, \<open>GetWriterOn\<close> creates the file and the handle accepts
  writes.
\<close>

theorem C8_writer_on_existing_file_is_read_only:
  "Stat (FS mem_client) tree1 ''/a/f'' = Inr \<lparr>fiSize = 2, fiIsDir = False\<rparr>
   \<and> GetWriterOn darwin_pf mem_client tree1 ''/a/f''
       = Some (Inr \<lparr>fName = ''/a/f'', fWritable = False\<rparr>, tree1)
   \<and> GetReaderOn darwin_pf mem_client tree1 ''/a/f''
       = Some (Inr \<lparr>fName = ''/a/f'', fWritable = False\<rparr>)
   \<and> FileWrite (FS mem_client) tree1 \<lparr>fName = ''/a/f'', fWritable = False\<rparr> ''v2''
       = (Some (ErrOther ''file handle is read only''), tree1)
   \<and> GetWriterOn darwin_pf mem_client tree1 ''/a/h''
       = Some (Inr \<lparr>fName = ''/a/h'', fWritable = True\<rparr>, tree1 @ [(''/a/h'', Regular [])])"
  by (simp add: GetWriterOn_def GetReaderOn_def example_defs err_of_def IsNotExist_def
      mem_Open_def mem_FileWrite_def mem_Create_def register_def parents_def mkdir1_def)

section \<open>Moving a directory on the in-memory storage\<close>

subsection \<open>The calls that \<open>moveRecursively\<close> makes, on any storage\<close>

lemma collect_gen:
  "fold (\<lambda>wPath (indexes, moves, i). (indexes @ [i], moves(i \<mapsto> wPath), i + 1)) ws (idx, m, k)
     = (idx @ [k..<k + length ws],
        (\<lambda>i. if k \<le> i \<and> i < k + length ws then Some (ws ! (i - k)) else m i),
        k + length ws)"
proof (induction ws arbitrary: idx m k)
  case Nil
  show ?case by (auto simp: fun_eq_iff)
next
  case (Cons w ws)
  let ?F = "\<lambda>wPath (indexes, moves, i). (indexes @ [i], moves(i \<mapsto> wPath), i + (1::nat))"
  have a: "(\<lambda>i. if k + 1 \<le> i \<and> i < k + 1 + length ws then Some (ws ! (i - (k + 1)))
              else (m(k \<mapsto> w)) i)
        = (\<lambda>i. if k \<le> i \<and> i < k + length (w # ws) then Some ((w # ws) ! (i - k)) else m i)"
    by (rule ext) (auto simp: nth_Cons' Suc_diff_le)
  have b: "(idx @ [k]) @ [k + 1..<k + 1 + length ws] = idx @ [k..<k + length (w # ws)]"
    by (subst (2) upt_rec) simp
  have c: "k + 1 + length ws = k + length (w # ws)" by simp
  have "fold ?F (w # ws) (idx, m, k) = fold ?F ws (idx @ [k], m(k \<mapsto> w), k + 1)"
    by simp
  also have "\<dots> = ((idx @ [k]) @ [k + 1..<k + 1 + length ws],
        (\<lambda>i. if k + 1 \<le> i \<and> i < k + 1 + length ws then Some (ws ! (i - (k + 1)))
              else (m(k \<mapsto> w)) i),
        k + 1 + length ws)"
    by (rule Cons.IH)
  also have "\<dots> = (idx @ [k..<k + length (w # ws)],
        (\<lambda>i. if k \<le> i \<and> i < k + length (w # ws) then Some ((w # ws) ! (i - k)) else m i),
        k + length (w # ws))"
    by (subst a, subst b, subst c, rule refl)
  finally show ?case .
qed

lemma collect_eq:
  "collect ws = ([0..<length ws], (\<lambda>i. if i < length ws then Some (ws ! i) else None), length ws)"
  unfolding collect_def collect_gen by (auto simp: fun_eq_iff)

lemma apply_calls_append:
  "apply_calls fs (xs @ ys) s = apply_calls fs ys (apply_calls fs xs s)"
  by (simp add: apply_calls_def)

lemma move_iter_skip:
  "moves (n - key0) = None \<Longrightarrow> move_iter fs oldPath newPath moves n key0 st = st"
  by (simp add: move_iter_def)

lemma move_iter_some:
  "moves (n - key0) = Some w \<Longrightarrow>
   move_iter fs oldPath newPath moves n key0 (s, cs)
     = (if w = [] then (s, cs)
        else (snd (Rename fs s w (dst oldPath newPath w)), cs @ [(w, dst oldPath newPath w)]))"
  by (simp add: move_iter_def)

lemma apply_calls_snoc:
  "apply_calls fs (cs @ [(a, b)]) s = snd (Rename fs (apply_calls fs cs s) a b)"
  by (simp add: apply_calls_def)

lemma loop_gen:
  assumes "m \<le> length ws"
  shows "fold (move_iter fs oldPath newPath
                (\<lambda>i. if i < length ws then Some (ws ! i) else None) (length ws)) [0..<m] (s, [])
         = (apply_calls fs (map (\<lambda>w. (w, dst oldPath newPath w))
                              (filter (\<lambda>w. w \<noteq> []) (rev (drop (Suc (length ws - m)) ws)))) s,
            map (\<lambda>w. (w, dst oldPath newPath w))
              (filter (\<lambda>w. w \<noteq> []) (rev (drop (Suc (length ws - m)) ws))))"
  using assms
proof (induction m)
  case 0
  show ?case by (simp add: apply_calls_def)
next
  case (Suc m)
  let ?mv = "\<lambda>i. if i < length ws then Some (ws ! i) else None"
  let ?cs = "\<lambda>m. map (\<lambda>w. (w, dst oldPath newPath w))
              (filter (\<lambda>w. w \<noteq> []) (rev (drop (Suc (length ws - m)) ws)))"
  from Suc have m: "m < length ws" and
    ih: "fold (move_iter fs oldPath newPath ?mv (length ws)) [0..<m] (s, [])
           = (apply_calls fs (?cs m) s, ?cs m)"
    by simp_all
  have step: "fold (move_iter fs oldPath newPath ?mv (length ws)) [0..<Suc m] (s, [])
      = move_iter fs oldPath newPath ?mv (length ws) m (apply_calls fs (?cs m) s, ?cs m)"
    by (simp add: ih)
  show ?case
  proof (cases "m = 0")
    case True
    have "?mv (length ws - m) = None" using True by simp
    then have "move_iter fs oldPath newPath ?mv (length ws) m (apply_calls fs (?cs m) s, ?cs m)
       = (apply_calls fs (?cs m) s, ?cs m)"
      by (rule move_iter_skip)
    moreover have "?cs (Suc m) = ?cs m" using True m by simp
    ultimately show ?thesis using step by simp
  next
    case False
    with m have k: "length ws - m < length ws" "Suc (length ws - Suc m) = length ws - m"
      by auto
    have d: "drop (length ws - m) ws = ws ! (length ws - m) # drop (Suc (length ws - m)) ws"
      using k(1) by (simp add: Cons_nth_drop_Suc)
    have mv: "?mv (length ws - m) = Some (ws ! (length ws - m))" using k(1) by simp
    have cs: "?cs (Suc m) = ?cs m @ (if ws ! (length ws - m) = [] then []
        else [(ws ! (length ws - m), dst oldPath newPath (ws ! (length ws - m)))])"
      by (simp add: k(2) d)
    have "move_iter fs oldPath newPath ?mv (length ws) m (apply_calls fs (?cs m) s, ?cs m)
        = (if ws ! (length ws - m) = [] then (apply_calls fs (?cs m) s, ?cs m)
           else (snd (Rename fs (apply_calls fs (?cs m) s) (ws ! (length ws - m))
                        (dst oldPath newPath (ws ! (length ws - m)))),
                 ?cs m @ [(ws ! (length ws - m), dst oldPath newPath (ws ! (length ws - m)))]))"
      using mv by (rule move_iter_some [where moves = "?mv"])
    then show ?thesis
      unfolding step cs by (simp add: apply_calls_snoc)
  qed
qed

lemma moveRecursively_calls:
  "moveRecursively c s oldPath newPath
     = (None,
        apply_calls (FS c)
          (map (\<lambda>w. (w, dst oldPath newPath w))
             (filter (\<lambda>w. w \<noteq> []) (rev (tl (Walk (FS c) s oldPath)))) @ [(oldPath, newPath)]) s,
        map (\<lambda>w. (w, dst oldPath newPath w))
          (filter (\<lambda>w. w \<noteq> []) (rev (tl (Walk (FS c) s oldPath)))) @ [(oldPath, newPath)])"
  by (simp add: moveRecursively_def collect_eq loop_gen drop_Suc apply_calls_append)
     (simp add: apply_calls_def)

subsection \<open>Renaming entries of the in-memory table\<close>

lemma Rename_MemMapFs [simp]: "Rename (MemMapFs sep) = mem_Rename sep"
  by (simp add: MemMapFs_def)

lemma map_of_mem_Rename:
  "map_of (snd (mem_Rename sep s w t)) k =
     (if w = t then map_of s k
      else
        (case map_of s w of
           None \<Rightarrow> map_of s k
         | Some e \<Rightarrow>
             if k \<in> set (parents sep t) \<and> ((map_of s)(w := None, t \<mapsto> e)) k = None
             then Some Dir
             else ((map_of s)(w := None, t \<mapsto> e)) k))"
  by (auto simp: mem_Rename_def map_of_register update_conv' delete_conv' split: option.splits)

lemma apply_calls_Cons:
  "apply_calls fs ((a, b) # cs) s = apply_calls fs cs (snd (Rename fs s a b))"
  by (simp add: apply_calls_def)

lemma apply_calls_mem_present:
  assumes "k \<notin> fst ` set mv" "k \<notin> snd ` set mv" "map_of s k \<noteq> None"
  shows "map_of (apply_calls (MemMapFs sep) mv s) k = map_of s k"
  using assms
proof (induction mv arbitrary: s)
  case Nil
  show ?case by (simp add: apply_calls_def)
next
  case (Cons c mv)
  obtain w t where c: "c = (w, t)" by (cases c)
  from Cons.prems c have k: "k \<noteq> w" "k \<noteq> t" by auto
  have s1: "map_of (snd (mem_Rename sep s w t)) k = map_of s k"
    using k Cons.prems(3) by (auto simp: map_of_mem_Rename split: option.splits)
  have "map_of (apply_calls (MemMapFs sep) mv (snd (mem_Rename sep s w t))) k
      = map_of (snd (mem_Rename sep s w t)) k"
    using Cons.prems s1 by (intro Cons.IH) auto
  then show ?case by (simp add: c apply_calls_Cons s1)
qed

lemma apply_calls_mem_absent:
  assumes "k \<notin> fst ` set mv" "k \<notin> snd ` set mv"
    and "\<forall>c \<in> set mv. k \<notin> set (parents sep (snd c))"
  shows "map_of (apply_calls (MemMapFs sep) mv s) k = map_of s k"
  using assms
proof (induction mv arbitrary: s)
  case Nil
  show ?case by (simp add: apply_calls_def)
next
  case (Cons c mv)
  obtain w t where c: "c = (w, t)" by (cases c)
  from Cons.prems c have k: "k \<noteq> w" "k \<noteq> t" "k \<notin> set (parents sep t)" by auto
  have s1: "map_of (snd (mem_Rename sep s w t)) k = map_of s k"
    using k by (auto simp: map_of_mem_Rename split: option.splits)
  have "map_of (apply_calls (MemMapFs sep) mv (snd (mem_Rename sep s w t))) k
      = map_of (snd (mem_Rename sep s w t)) k"
    using Cons.prems by (intro Cons.IH) auto
  then show ?case by (simp add: c apply_calls_Cons s1)
qed

lemma mem_moves:
  assumes "distinct (map fst mv)" "distinct (map snd mv)"
    and "\<forall>c \<in> set mv. map_of s (fst c) \<noteq> None"
    and "\<forall>c \<in> set mv. \<forall>q \<in> set (snd c # parents sep (snd c)). q \<notin> fst ` set mv"
  shows "\<forall>c \<in> set mv. map_of (apply_calls (MemMapFs sep) mv s) (snd c) = map_of s (fst c)
                      \<and> map_of (apply_calls (MemMapFs sep) mv s) (fst c) = None"
  using assms
proof (induction mv arbitrary: s)
  case Nil
  show ?case by simp
next
  case (Cons c mv)
  obtain w t where c: "c = (w, t)" by (cases c)
  let ?s1 = "snd (mem_Rename sep s w t)"
  from Cons.prems(3) c obtain e where e: "map_of s w = Some e" by auto
  from Cons.prems(4) c have wt: "w \<noteq> t" "w \<notin> set (parents sep t)" by auto
  have w_src: "w \<notin> fst ` set mv" using Cons.prems(1) c by auto
  have t_tgt: "t \<notin> snd ` set mv" using Cons.prems(2) c by auto
  have t_src: "t \<notin> fst ` set mv" using Cons.prems(4) c by auto
  have w_tgt: "w \<notin> snd ` set mv" using Cons.prems(4) by (auto simp: c)
  have w_par: "\<forall>d \<in> set mv. w \<notin> set (parents sep (snd d))"
    using Cons.prems(4) by (auto simp: c)
  have s1_t: "map_of ?s1 t = Some e"
    using wt e by (simp add: map_of_mem_Rename)
  have s1_w: "map_of ?s1 w = None"
    using wt e by (simp add: map_of_mem_Rename)
  have s1_src: "map_of ?s1 (fst d) = map_of s (fst d)" if "d \<in> set mv" for d
  proof -
    from that have "fst d \<noteq> w" using w_src by auto
    moreover from that have "fst d \<noteq> t" using t_src by auto
    moreover from that Cons.prems(3) have "map_of s (fst d) \<noteq> None" by auto
    ultimately show ?thesis using e wt by (auto simp: map_of_mem_Rename)
  qed
  have ih: "\<forall>d \<in> set mv. map_of (apply_calls (MemMapFs sep) mv ?s1) (snd d) = map_of ?s1 (fst d)
                      \<and> map_of (apply_calls (MemMapFs sep) mv ?s1) (fst d) = None"
  proof (rule Cons.IH)
    show "distinct (map fst mv)" using Cons.prems(1) by simp
    show "distinct (map snd mv)" using Cons.prems(2) by simp
    show "\<forall>d \<in> set mv. map_of ?s1 (fst d) \<noteq> None"
      using s1_src Cons.prems(3) by auto
    show "\<forall>d \<in> set mv. \<forall>q \<in> set (snd d # parents sep (snd d)). q \<notin> fst ` set mv"
      using Cons.prems(4) by auto
  qed
  have fin_t: "map_of (apply_calls (MemMapFs sep) mv ?s1) t = Some e"
    using apply_calls_mem_present [OF t_src t_tgt, of ?s1 sep] s1_t by simp
  have fin_w: "map_of (apply_calls (MemMapFs sep) mv ?s1) w = None"
    using apply_calls_mem_absent [OF w_src w_tgt w_par, of ?s1] s1_w by simp
  show ?case
    using ih s1_src fin_t fin_w e by (auto simp: c apply_calls_Cons)
qed

subsection \<open>The walk and the move\<close>

lemma parents_prefix: "q \<in> set (parents sep p) \<Longrightarrow> prefix q p \<and> q \<noteq> p \<and> p \<noteq> []"
  by (auto simp: parents_def take_is_prefix)

lemma below_prefix: "below sep root k \<Longrightarrow> prefix root k \<and> k \<noteq> root \<and> k \<noteq> []"
  using parents_prefix [of root sep k] by (auto simp: below_def)

lemma mem_Walk_Some:
  assumes "map_of s root = Some e"
  shows "mem_Walk sep s root
           = root # sort_key (splitOn sep) (remdups (filter (below sep root) (map fst s)))"
  using assms by (simp add: mem_Walk_def)

lemma mem_Walk_props:
  assumes "map_of s root = Some e"
  shows "hd (mem_Walk sep s root) = root"
    and "set (tl (mem_Walk sep s root)) = {k \<in> fst ` set s. below sep root k}"
    and "distinct (mem_Walk sep s root)"
    and "\<forall>w \<in> set (mem_Walk sep s root). prefix root w \<and> map_of s w \<noteq> None"
    and "\<forall>w \<in> set (tl (mem_Walk sep s root)). w \<noteq> []"
proof -
  note w = mem_Walk_Some [OF assms, of sep]
  show "hd (mem_Walk sep s root) = root" by (simp add: w)
  show "set (tl (mem_Walk sep s root)) = {k \<in> fst ` set s. below sep root k}"
    by (auto simp: w)
  show "distinct (mem_Walk sep s root)"
    using below_prefix [of sep root root] by (auto simp: w)
  have "map_of s k \<noteq> None" if "k \<in> fst ` set s" for k
    using that by (simp add: map_of_eq_None_iff)
  then show "\<forall>w \<in> set (mem_Walk sep s root). prefix root w \<and> map_of s w \<noteq> None"
    using assms by (auto simp: w dest: below_prefix)
  show "\<forall>w \<in> set (tl (mem_Walk sep s root)). w \<noteq> []"
    by (auto simp: w dest: below_prefix)
qed

lemma dst_prefix: "prefix oldPath w \<Longrightarrow> dst oldPath newPath w = newPath @ drop (length oldPath) w"
  by (simp add: dst_def TrimPrefix_def)

lemma dst_inj:
  assumes "\<forall>w \<in> set ws. prefix oldPath w"
  shows "inj_on (dst oldPath newPath) (set ws)"
proof (rule inj_onI)
  fix a b assume a: "a \<in> set ws" and b: "b \<in> set ws"
    and eq: "dst oldPath newPath a = dst oldPath newPath b"
  from a b assms have pa: "prefix oldPath a" and pb: "prefix oldPath b" by auto
  from eq have "drop (length oldPath) a = drop (length oldPath) b"
    by (simp add: dst_prefix pa pb)
  moreover from pa have "a = oldPath @ drop (length oldPath) a" by (auto simp: prefix_def)
  moreover from pb have "b = oldPath @ drop (length oldPath) b" by (auto simp: prefix_def)
  ultimately show "a = b" by metis
qed

lemma mem_Stat_dir: "mem_Stat s p = Inr i \<Longrightarrow> \<exists>e. map_of s p = Some e"
  by (auto simp: mem_Stat_def split: option.splits)

lemma MoveNode_mem:
  assumes "call (denormalize pf) oldPath0 = Some oldPath"
    and "call (denormalize pf) newPath0 = Some newPath"
    and "mem_Stat s oldPath = Inr i" and "fiIsDir i"
  shows "MoveNode pf \<lparr>RootPath = r, FS = MemMapFs sep\<rparr> s oldPath0 newPath0
           = Some (None,
               apply_calls (MemMapFs sep)
                 (map (\<lambda>w. (w, dst oldPath newPath w)) (rev (mem_Walk sep s oldPath))) s,
               map (\<lambda>w. (w, dst oldPath newPath w)) (rev (tl (mem_Walk sep s oldPath)))
                 @ [(oldPath, newPath)])"
proof -
  from assms(3) obtain e where e: "map_of s oldPath = Some e" by (auto dest: mem_Stat_dir)
  note p = mem_Walk_props [OF e, of sep]
  have ne: "filter (\<lambda>w. w \<noteq> []) (rev (tl (mem_Walk sep s oldPath)))
      = rev (tl (mem_Walk sep s oldPath))"
    using p(5) by (simp add: filter_id_conv)
  have root: "dst oldPath newPath oldPath = newPath"
    by (simp add: dst_def TrimPrefix_def)
  have full: "map (\<lambda>w. (w, dst oldPath newPath w)) (rev (tl (mem_Walk sep s oldPath)))
                 @ [(oldPath, newPath)]
      = map (\<lambda>w. (w, dst oldPath newPath w)) (rev (mem_Walk sep s oldPath))"
    by (simp add: mem_Walk_Some [OF e] root)
  have w: "Walk (MemMapFs sep) = mem_Walk sep" "Stat (MemMapFs sep) = mem_Stat"
    "IsMemMapFs (MemMapFs sep)"
    by (simp_all add: MemMapFs_def)
  show ?thesis
    using assms
    by (simp add: MoveNode_def moveRecursively_calls w ne err_of_def IsNotExist_def full)
qed

lemma walk_tree1:
  "mem_Walk CHR ''/'' tree1 ''/a'' = [''/a'', ''/a/.__pydio'', ''/a/d'', ''/a/d/g'', ''/a/f'']"
  by (simp add: mem_Walk_def tree1_def below_def parents_def)

lemma parents_examples:
  "parents CHR ''/'' ''/b'' = [''/'']"
  "parents CHR ''/'' ''/b/.__pydio'' = [''/'', ''/b'']"
  "parents CHR ''/'' ''/b/d'' = [''/'', ''/b'']"
  "parents CHR ''/'' ''/b/d/g'' = [''/'', ''/b'', ''/b/d'']"
  "parents CHR ''/'' ''/b/f'' = [''/'', ''/b'']"
  by (simp_all add: parents_def)

text \<open>
  Claim C6, as the code has it. \<open>MoveNode\<close> on the in-memory storage (the backend for which
  the code moves recursively), for \<open>oldPath\<close> an existing directory, on a platform whose
  denormalizer \<open>init\<close> installs: the walk visits \<open>oldPath\<close> first and then its descendants;
  the \<open>Rename\<close> calls made are those of the descendants in the reverse of that order, each
  to \<open>newPath\<close> with the matching suffix, and then that of the root. Provided no
  destination and no ancestor of a destination is itself a path of the walk, every path
  of the walk ends with its entry at its destination and is gone from where it was, and
  \<open>oldPath\<close> no longer exists.
\<close>

theorem C6_moveNode_recursive:
  assumes "call (denormalize pf) oldPath0 = Some oldPath"
    and "call (denormalize pf) newPath0 = Some newPath"
    and "mem_Stat s oldPath = Inr i" and "fiIsDir i"
    and "\<forall>w \<in> set (mem_Walk sep s oldPath).
           \<forall>q \<in> set (dst oldPath newPath w # parents sep (dst oldPath newPath w)).
             q \<notin> set (mem_Walk sep s oldPath)"
  shows "\<exists>s'. MoveNode pf \<lparr>RootPath = r, FS = MemMapFs sep\<rparr> s oldPath0 newPath0
            = Some (None, s',
                map (\<lambda>w. (w, dst oldPath newPath w)) (rev (tl (mem_Walk sep s oldPath)))
                  @ [(oldPath, newPath)])
          \<and> hd (mem_Walk sep s oldPath) = oldPath
          \<and> set (tl (mem_Walk sep s oldPath)) = {k \<in> fst ` set s. below sep oldPath k}
          \<and> (\<forall>w \<in> set (mem_Walk sep s oldPath).
                map_of s' (dst oldPath newPath w) = map_of s w \<and> map_of s' w = None)
          \<and> mem_Stat s' oldPath = Inl ErrNotExist"
proof -
  from assms(3) obtain e where e: "map_of s oldPath = Some e" by (auto dest: mem_Stat_dir)
  note p = mem_Walk_props [OF e, of sep]
  let ?ws = "mem_Walk sep s oldPath"
  let ?mv = "map (\<lambda>w. (w, dst oldPath newPath w)) (rev ?ws)"
  let ?s' = "apply_calls (MemMapFs sep) ?mv s"
  have fst_mv: "map fst ?mv = rev ?ws" by (simp add: comp_def)
  have snd_mv: "map snd ?mv = map (dst oldPath newPath) (rev ?ws)" by (simp add: comp_def)
  have d1: "distinct (map fst ?mv)" unfolding fst_mv using p(3) by simp
  have "inj_on (dst oldPath newPath) (set (rev ?ws))"
    using dst_inj [of ?ws oldPath newPath] p(4) by simp
  then have d2: "distinct (map snd ?mv)"
    unfolding snd_mv using p(3) by (simp add: distinct_map)
  have d3: "\<forall>c \<in> set ?mv. map_of s (fst c) \<noteq> None" using p(4) by auto
  have d4: "\<forall>c \<in> set ?mv. \<forall>q \<in> set (snd c # parents sep (snd c)). q \<notin> fst ` set ?mv"
    using assms(5) by (auto simp: image_iff)
  from mem_moves [OF d1 d2 d3 d4]
  have fin: "\<forall>w \<in> set ?ws. map_of ?s' (dst oldPath newPath w) = map_of s w \<and> map_of ?s' w = None"
    by auto
  have "oldPath \<in> set ?ws" by (simp add: mem_Walk_Some [OF e])
  with fin have "map_of ?s' oldPath = None" by blast
  then have gone: "mem_Stat ?s' oldPath = Inl ErrNotExist" by (simp add: mem_Stat_def)
  show ?thesis
    using MoveNode_mem [OF assms(1-4), of r sep] p(1,2) fin gone by blast
qed

theorem C6_witness:
  "call (denormalize darwin_pf) ''/a'' = Some ''/a''
   \<and> call (denormalize darwin_pf) ''/b'' = Some ''/b''
   \<and> mem_Stat tree1 ''/a'' = Inr \<lparr>fiSize = 0, fiIsDir = True\<rparr>
   \<and> mem_Walk CHR ''/'' tree1 ''/a'' = [''/a'', ''/a/.__pydio'', ''/a/d'', ''/a/d/g'', ''/a/f'']
   \<and> (\<exists>s'. MoveNode darwin_pf \<lparr>RootPath = ''/root'', FS = MemMapFs CHR ''/''\<rparr> tree1 ''/a'' ''/b''
            = Some (None, s',
                [(''/a/f'', ''/b/f''), (''/a/d/g'', ''/b/d/g''), (''/a/d'', ''/b/d''),
                 (''/a/.__pydio'', ''/b/.__pydio''), (''/a'', ''/b'')])
          \<and> map_of s' ''/b'' = Some Dir
          \<and> map_of s' ''/b/.__pydio'' = Some (Regular ''id-1'')
          \<and> map_of s' ''/b/d'' = Some Dir
          \<and> map_of s' ''/b/d/g'' = Some (Regular ''x'')
          \<and> map_of s' ''/b/f'' = Some (Regular ''v1'')
          \<and> map_of s' ''/a/f'' = None
          \<and> mem_Stat s' ''/a'' = Inl ErrNotExist)"
proof -
  have a: "call (denormalize darwin_pf) ''/a'' = Some ''/a''"
    and b: "call (denormalize darwin_pf) ''/b'' = Some ''/b''"
    by (simp_all add: example_defs)
  have st: "mem_Stat tree1 ''/a'' = Inr \<lparr>fiSize = 0, fiIsDir = True\<rparr>"
    by (simp add: example_defs)
  have dir: "fiIsDir \<lparr>fiSize = 0, fiIsDir = True\<rparr>" by simp
  have free: "\<forall>w \<in> set (mem_Walk CHR ''/'' tree1 ''/a'').
           \<forall>q \<in> set (dst ''/a'' ''/b'' w # parents CHR ''/'' (dst ''/a'' ''/b'' w)).
             q \<notin> set (mem_Walk CHR ''/'' tree1 ''/a'')"
    by (simp add: walk_tree1 dst_def TrimPrefix_def parents_examples)
  from C6_moveNode_recursive [OF a b st dir free, of "''/root''"]
  obtain s' where s': "MoveNode darwin_pf \<lparr>RootPath = ''/root'', FS = MemMapFs CHR ''/''\<rparr> tree1
            ''/a'' ''/b''
        = Some (None, s',
            map (\<lambda>w. (w, dst ''/a'' ''/b'' w)) (rev (tl (mem_Walk CHR ''/'' tree1 ''/a'')))
              @ [(''/a'', ''/b'')])"
    and fin: "\<forall>w \<in> set (mem_Walk CHR ''/'' tree1 ''/a'').
                map_of s' (dst ''/a'' ''/b'' w) = map_of tree1 w \<and> map_of s' w = None"
    and gone: "mem_Stat s' ''/a'' = Inl ErrNotExist"
    by blast
  from s' have 1: "MoveNode darwin_pf \<lparr>RootPath = ''/root'', FS = MemMapFs CHR ''/''\<rparr> tree1
            ''/a'' ''/b''
        = Some (None, s',
                [(''/a/f'', ''/b/f''), (''/a/d/g'', ''/b/d/g''), (''/a/d'', ''/b/d''),
                 (''/a/.__pydio'', ''/b/.__pydio''), (''/a'', ''/b'')])"
    by (simp add: walk_tree1 dst_def TrimPrefix_def)
  from fin have fin': "\<forall>w \<in> set [''/a'', ''/a/.__pydio'', ''/a/d'', ''/a/d/g'', ''/a/f''].
                map_of s' (dst ''/a'' ''/b'' w) = map_of tree1 w \<and> map_of s' w = None"
    by (simp only: walk_tree1)
  from fin' have 2: "map_of s' ''/b'' = Some Dir"
    "map_of s' ''/b/.__pydio'' = Some (Regular ''id-1'')"
    "map_of s' ''/b/d'' = Some Dir"
    "map_of s' ''/b/d/g'' = Some (Regular ''x'')"
    "map_of s' ''/b/f'' = Some (Regular ''v1'')"
    "map_of s' ''/a/f'' = None"
    by (simp_all add: dst_def TrimPrefix_def tree1_def)
  from a b st 1 2 gone show ?thesis by (simp add: walk_tree1)
qed

text \<open>
  The claim as stated fails without that proviso: moving \<open>/a\<close> to \<open>/a\<close> leaves the storage
  as it was, so \<open>oldPath\<close> still exists afterwards.
\<close>

theorem C6_counterexample:
  "mem_Stat tree1 ''/a'' = Inr \<lparr>fiSize = 0, fiIsDir = True\<rparr>
   \<and> IsMemMapFs (FS mem_client)
   \<and> MoveNode darwin_pf mem_client tree1 ''/a'' ''/a''
       = Some (None, tree1,
               [(''/a/f'', ''/a/f''), (''/a/d/g'', ''/a/d/g''), (''/a/d'', ''/a/d''),
                (''/a/.__pydio'', ''/a/.__pydio''), (''/a'', ''/a'')])"
proof -
  have a: "call (denormalize darwin_pf) ''/a'' = Some ''/a''"
    by (simp add: example_defs)
  have st: "mem_Stat tree1 ''/a'' = Inr \<lparr>fiSize = 0, fiIsDir = True\<rparr>"
    by (simp add: example_defs)
  have same: "snd (mem_Rename sep s p p) = s" for sep s p
    by (simp add: mem_Rename_def)
  from MoveNode_mem [OF a a st, of "''/root''" "CHR ''/''"]
  show ?thesis
    by (simp add: st mem_client_def walk_tree1 dst_def TrimPrefix_def apply_calls_def same)
       (simp add: MemMapFs_def)
qed

section \<open>Closing the channels of a session\<close>

text \<open>
  Claim C9 at the execution where the code departs from it. A session is started on a
  storage on disk. One raw Create event for the existing file \<open>/a/f\<close> has arrived; the caller signals \<open>doneChan\<close>; the first goroutine
  receives the signal, stops the watcher and closes \<open>eventChan\<close>; the second goroutine then
  reads the event from \<open>out\<close>, translates it and sends it: a send on the closed channel.
  Nothing makes the first goroutine wait for the second one.
\<close>

theorem C9_send_after_close:
  "Watch darwin_pf ro_client [] None = Some (W_session watch_init)
   \<and> watch_run (watch_body darwin_pf ''t0'' ro_client () (\<lambda>p. False))
     [Notify \<lparr>evPath = ''/root/a/f'', evEvent = 0x100\<rparr>, Caller_done,
      Closer, Closer, Closer, Translator, Translator] watch_init
   = \<lparr>w_done = True, w_stopped = True, w_out = [], w_closer = C_close_error,
      w_translator = T_panicked, w_eventClosed = True, w_errorClosed = False,
      w_events = [], w_errors = [], w_sendOnClosed = True\<rparr>"
proof -
  have body: "watch_body darwin_pf ''t0'' ro_client () (\<lambda>p. False)
        \<lparr>evPath = ''/root/a/f'', evEvent = 0x100\<rparr>
      = Some (ToEventChan \<lparr>Time = ''t0'', Size = 2, Folder = False, Path = ''/a/f'',
                Type = EventCreate, PathSyncSource = Some ''/root''\<rparr>)"
    by (simp add: watch_body_def notifyEventToEventInfo_def example_defs forward_def empty_def)
  have start: "Watch darwin_pf ro_client [] None = Some (W_session watch_init)"
    by (simp add: Watch_def example_defs)
  show ?thesis
    by (simp add: start) (simp add: watch_run_def watch_init_def body)
qed

section \<open>The growable event buffer is a lossless queue\<close>

lemma concat_take_head:
  assumes "c < length xs" "\<forall>i < c. buf (xs ! i) = []" "buf (xs ! c) = v # vs"
  shows "concat (map buf xs) = v # concat (map buf (xs[c := (xs ! c)\<lparr>buf := vs\<rparr>]))"
proof -
  have e: "concat (map buf (take c xs)) = []"
    using assms(1,2) by (auto simp: in_set_conv_nth)
  have x: "xs = take c xs @ xs ! c # drop (Suc c) xs"
    using assms(1) by (simp add: id_take_nth_drop)
  have u: "xs[c := (xs ! c)\<lparr>buf := vs\<rparr>] = take c xs @ (xs ! c)\<lparr>buf := vs\<rparr> # drop (Suc c) xs"
    using assms(1) by (simp add: upd_conv_take_nth_drop)
  have "concat (map buf xs) = concat (map buf (take c xs @ xs ! c # drop (Suc c) xs))"
    using x by simp
  also have "\<dots> = v # vs @ concat (map buf (drop (Suc c) xs))"
    using e assms(3) by simp
  also have "\<dots> = v # concat (map buf (xs[c := (xs ! c)\<lparr>buf := vs\<rparr>]))"
    unfolding u using e by simp
  finally show ?thesis .
qed

lemma concat_append_last:
  assumes "xs \<noteq> []"
  shows "concat (map buf (xs[length xs - 1 := (xs ! (length xs - 1))\<lparr>buf := buf (xs ! (length xs - 1)) @ [e]\<rparr>]))
         = concat (map buf xs) @ [e]"
proof -
  from assms obtain ys y where xs: "xs = ys @ [y]" by (metis rev_exhaust)
  show ?thesis by (simp add: xs)
qed

lemma map_buf_close_seg: "map buf (close_seg i xs) = map buf xs"
  by (cases "i < length xs")
     (simp_all add: close_seg_def map_update list_update_same_conv list_update_beyond)

lemma concat_all_empty:
  "\<forall>i < length xs. buf (xs ! i) = [] \<Longrightarrow> concat (map buf xs) = []"
  by (auto simp: in_set_conv_nth)

lemmas queue_defs = drain_next_def pushed_def drain_cur_def
lemmas part_defs = inv_flow_def inv_queue_def inv_drained_def inv_curr_def inv_closed_def
  inv_caps_def inv_room_def inv_input_def inv_down_def

lemma frame_outer [simp]:
  "pushed (pending_update f1 s) = pushed s"
  "pushed (inputCh_update f2 s) = pushed s"
  "pushed (outputCh_update f3 s) = pushed s"
  "pushed (received_update f4 s) = pushed s"
  "pushed (sawClosed_update f5 s) = pushed s"
  "pushed (channels_update f6 s) = pushed s"
  "pushed (drain_update f7 s) = pushed s"
  "drain_next (pending_update f1 s) = drain_next s"
  "drain_next (inputCh_update f2 s) = drain_next s"
  "drain_next (outputCh_update f3 s) = drain_next s"
  "drain_next (received_update f4 s) = drain_next s"
  "drain_next (sawClosed_update f5 s) = drain_next s"
  "drain_cur (pending_update f1 s) = drain_cur s"
  "drain_cur (inputCh_update f2 s) = drain_cur s"
  "drain_cur (outputCh_update f3 s) = drain_cur s"
  "drain_cur (received_update f4 s) = drain_cur s"
  "drain_cur (sawClosed_update f5 s) = drain_cur s"
  by (simp_all add: queue_defs cong: option.case_cong)

lemma inv_init: "1 \<le> n \<Longrightarrow> pipe_inv evs (PipeChan n evs)"
  by (simp add: pipe_inv_def part_defs PipeChan_def in_flight_def make_chan_def queue_defs)

lemma pipe_invI:
  assumes "inv_flow evs s" "inv_queue s" "inv_drained s" "inv_curr s" "inv_closed s"
    "inv_caps s" "inv_room s" "inv_input s" "inv_down s"
  shows "pipe_inv evs s"
  using assms by (simp add: pipe_inv_def)

lemma pipe_invD:
  assumes "pipe_inv evs s"
  shows "inv_flow evs s" "inv_queue s" "inv_drained s" "inv_curr s" "inv_closed s"
    "inv_caps s" "inv_room s" "inv_input s" "inv_down s"
  using assms by (simp_all add: pipe_inv_def)

lemma close_seg_simps [simp]:
  "length (close_seg c xs) = length xs"
  "i < length xs \<Longrightarrow> buf (close_seg c xs ! i) = buf (xs ! i)"
  "i < length xs \<Longrightarrow> cap (close_seg c xs ! i) = cap (xs ! i)"
  "i < length xs \<Longrightarrow> closed (close_seg c xs ! i) = (i = c \<or> closed (xs ! i))"
  by (cases "i = c"; simp add: close_seg_def)+

lemma close_seg_Nil [simp]: "(close_seg c xs = []) = (xs = [])"
  by (simp add: close_seg_def)

lemma upd_buf_simps [simp]:
  "i < length xs \<Longrightarrow> closed (xs[c := (xs ! c)\<lparr>buf := b\<rparr>] ! i) = closed (xs ! i)"
  "i < length xs \<Longrightarrow> cap (xs[c := (xs ! c)\<lparr>buf := b\<rparr>] ! i) = cap (xs ! i)"
  "i < length xs \<Longrightarrow> buf (xs[c := (xs ! c)\<lparr>buf := b\<rparr>] ! i) = (if i = c then b else buf (xs ! i))"
  by (cases "i = c"; simp)+

subsection \<open>The sender and the reader\<close>

lemma inv_sender:
  assumes inv: "pipe_inv evs s" and st: "sender_step s = Some s'"
  shows "pipe_inv evs s'"
proof -
  note p = pipe_invD [OF inv]
  show ?thesis
  proof (cases "pending s")
    case Nil
    with st have s': "s' = s\<lparr>inputCh := (inputCh s)\<lparr>closed := True\<rparr>\<rparr>"
      by (auto simp: sender_step_def split: if_splits)
    show ?thesis unfolding s'
    proof (rule pipe_invI)
      show "inv_flow evs (s\<lparr>inputCh := (inputCh s)\<lparr>closed := True\<rparr>\<rparr>)"
        using p(1) by (simp add: inv_flow_def in_flight_def)
      show "inv_input (s\<lparr>inputCh := (inputCh s)\<lparr>closed := True\<rparr>\<rparr>)"
        using p(8) Nil by (auto simp: inv_input_def)
    qed (use p in \<open>auto simp: part_defs\<close>)
  next
    case (Cons x xs)
    from p(8) Cons have op: "\<not> closed (inputCh s)" by (auto simp: inv_input_def)
    with st Cons
    have s': "s' = s\<lparr>pending := xs, inputCh := (inputCh s)\<lparr>buf := buf (inputCh s) @ [x]\<rparr>\<rparr>"
      by (auto simp: sender_step_def split: if_splits)
    show ?thesis unfolding s'
    proof (rule pipe_invI)
      show "inv_flow evs (s\<lparr>pending := xs, inputCh := (inputCh s)\<lparr>buf := buf (inputCh s) @ [x]\<rparr>\<rparr>)"
        using p(1) Cons by (simp add: inv_flow_def in_flight_def)
      show "inv_input (s\<lparr>pending := xs, inputCh := (inputCh s)\<lparr>buf := buf (inputCh s) @ [x]\<rparr>\<rparr>)"
        using p(8) Cons op by (auto simp: inv_input_def)
    qed (use p in \<open>auto simp: part_defs\<close>)
  qed
qed

lemma inv_reader:
  assumes inv: "pipe_inv evs s" and st: "reader_step s = Some s'"
  shows "pipe_inv evs s'"
proof -
  note p = pipe_invD [OF inv]
  show ?thesis
  proof (cases "buf (outputCh s)")
    case Nil
    with st have s': "s' = s\<lparr>sawClosed := True\<rparr>" and cl: "closed (outputCh s)"
      by (auto simp: reader_step_def split: if_splits)
    show ?thesis unfolding s'
    proof (rule pipe_invI)
      show "inv_flow evs (s\<lparr>sawClosed := True\<rparr>)"
        using p(1) by (simp add: inv_flow_def in_flight_def)
      show "inv_down (s\<lparr>sawClosed := True\<rparr>)"
        using p(9) Nil cl by (auto simp: inv_down_def)
    qed (use p in \<open>auto simp: part_defs\<close>)
  next
    case (Cons v vs)
    with st
    have s': "s' = s\<lparr>outputCh := (outputCh s)\<lparr>buf := vs\<rparr>, received := received s @ [v]\<rparr>"
      by (auto simp: reader_step_def)
    show ?thesis unfolding s'
    proof (rule pipe_invI)
      show "inv_flow evs (s\<lparr>outputCh := (outputCh s)\<lparr>buf := vs\<rparr>, received := received s @ [v]\<rparr>)"
        using p(1) Cons by (simp add: inv_flow_def in_flight_def)
      show "inv_down (s\<lparr>outputCh := (outputCh s)\<lparr>buf := vs\<rparr>, received := received s @ [v]\<rparr>)"
        using p(9) Cons by (auto simp: inv_down_def)
    qed (use p in \<open>auto simp: part_defs\<close>)
  qed
qed

subsection \<open>The second goroutine\<close>

lemma upt_eq_ConsD: "c # cs = [n..<p] \<Longrightarrow> c = n \<and> n < p \<and> cs = [Suc n..<p]"
  by (cases "n < p") (simp_all add: upt_conv_Cons)

lemma inv_drain_next:
  assumes inv: "pipe_inv evs s" and pc: "drain s = D_next" and q: "buf (channels s) = c # cs"
  shows "pipe_inv evs (s\<lparr>channels := (channels s)\<lparr>buf := cs\<rparr>, drain := D_range c\<rparr>)"
proof (rule pipe_invI)
  note p = pipe_invD [OF inv]
  let ?s' = "s\<lparr>channels := (channels s)\<lparr>buf := cs\<rparr>, drain := D_range c\<rparr>"
  from p(2) pc q have u: "c # cs = [drain_next s..<pushed s]" "drain_next s \<le> pushed s"
    "pushed s \<le> length (segs s)"
    by (simp_all add: inv_queue_def)
  from upt_eq_ConsD [OF u(1)] have c: "c = drain_next s" "drain_next s < pushed s"
    "cs = [Suc (drain_next s)..<pushed s]"
    by simp_all
  from pc q u c have cur: "drain_cur s = c"
    by (simp add: drain_cur_def drain_next_def)
  show "inv_flow evs ?s'" using p(1) pc by (simp add: inv_flow_def in_flight_def)
  show "inv_queue ?s'" using c u by (simp add: inv_queue_def drain_next_def)
  show "inv_drained ?s'" using p(3) cur by (simp add: inv_drained_def drain_cur_def)
  show "inv_down ?s'" using p(9) pc by (auto simp: inv_down_def)
qed (use pipe_invD [OF inv] in \<open>auto simp: part_defs\<close>)

lemma inv_drain_finish:
  assumes inv: "pipe_inv evs s" and pc: "drain s = D_next" and q: "buf (channels s) = []"
    and cl: "closed (channels s)"
  shows "pipe_inv evs (s\<lparr>drain := D_close\<rparr>)"
proof (rule pipe_invI)
  note p = pipe_invD [OF inv]
  show "inv_flow evs (s\<lparr>drain := D_close\<rparr>)" using p(1) pc by (simp add: inv_flow_def in_flight_def)
  show "inv_queue (s\<lparr>drain := D_close\<rparr>)" using p(2) pc by (simp add: inv_queue_def drain_next_def)
  show "inv_drained (s\<lparr>drain := D_close\<rparr>)" using p(3) pc by (simp add: inv_drained_def drain_cur_def)
  show "inv_down (s\<lparr>drain := D_close\<rparr>)" using p(9) pc q cl by (auto simp: inv_down_def)
qed (use pipe_invD [OF inv] in \<open>auto simp: part_defs\<close>)

lemma inv_drain_take:
  assumes inv: "pipe_inv evs s" and pc: "drain s = D_range c" and b: "buf (segs s ! c) = v # vs"
  shows "pipe_inv evs (s\<lparr>segs := (segs s)[c := (segs s ! c)\<lparr>buf := vs\<rparr>], drain := D_send c v\<rparr>)"
proof (rule pipe_invI)
  note p = pipe_invD [OF inv]
  let ?s' = "s\<lparr>segs := (segs s)[c := (segs s ! c)\<lparr>buf := vs\<rparr>], drain := D_send c v\<rparr>"
  from p(2) pc have c: "Suc c \<le> pushed s" "pushed s \<le> length (segs s)"
    by (simp_all add: inv_queue_def drain_next_def)
  then have cl: "c < length (segs s)" by simp
  from p(3) pc have e: "\<forall>i < c. buf (segs s ! i) = []"
    by (simp add: inv_drained_def drain_cur_def)
  have ps: "pushed ?s' = pushed s" by (simp add: pushed_def)
  show "inv_flow evs ?s'"
    using p(1) pc concat_take_head [OF cl e b] by (simp add: inv_flow_def in_flight_def)
  show "inv_queue ?s'" using p(2) pc by (simp add: inv_queue_def drain_next_def ps) (simp add: pushed_def)
  show "inv_drained ?s'" using p(3) pc by (simp add: inv_drained_def drain_cur_def)
  show "inv_curr ?s'" using p(4) by (simp add: inv_curr_def)
  show "inv_closed ?s'" using p(5) by (simp add: inv_closed_def)
  show "inv_caps ?s'" using p(6) by (simp add: inv_caps_def)
  show "inv_room ?s'" using p(7) b cl p(4) by (auto simp: inv_room_def inv_curr_def)
  show "inv_input ?s'" using p(8) by (simp add: inv_input_def)
  show "inv_down ?s'" using p(9) pc by (auto simp: inv_down_def)
qed

lemma inv_drain_leave:
  assumes inv: "pipe_inv evs s" and pc: "drain s = D_range c" and b: "buf (segs s ! c) = []"
    and cl: "closed (segs s ! c)"
  shows "pipe_inv evs (s\<lparr>drain := D_next\<rparr>)"
proof (rule pipe_invI)
  note p = pipe_invD [OF inv]
  from p(2) pc have q: "buf (channels s) = [Suc c..<pushed s]" "Suc c \<le> pushed s"
    by (simp_all add: inv_queue_def drain_next_def)
  then have n: "pushed s - length (buf (channels s)) = Suc c" by simp
  show "inv_flow evs (s\<lparr>drain := D_next\<rparr>)" using p(1) pc by (simp add: inv_flow_def in_flight_def)
  show "inv_queue (s\<lparr>drain := D_next\<rparr>)" using p(2) q n by (simp add: inv_queue_def drain_next_def)
  show "inv_drained (s\<lparr>drain := D_next\<rparr>)"
    using p(3) pc b cl n by (auto simp: inv_drained_def drain_cur_def less_Suc_eq)
  show "inv_down (s\<lparr>drain := D_next\<rparr>)" using p(9) pc by (auto simp: inv_down_def)
qed (use pipe_invD [OF inv] in \<open>auto simp: part_defs\<close>)

lemma inv_drain_send:
  assumes inv: "pipe_inv evs s" and pc: "drain s = D_send c v"
  shows "pipe_inv evs (s\<lparr>outputCh := (outputCh s)\<lparr>buf := buf (outputCh s) @ [v]\<rparr>, drain := D_range c\<rparr>)"
proof (rule pipe_invI)
  note p = pipe_invD [OF inv]
  let ?s' = "s\<lparr>outputCh := (outputCh s)\<lparr>buf := buf (outputCh s) @ [v]\<rparr>, drain := D_range c\<rparr>"
  show "inv_flow evs ?s'" using p(1) pc by (simp add: inv_flow_def in_flight_def)
  show "inv_queue ?s'" using p(2) pc by (simp add: inv_queue_def drain_next_def)
  show "inv_drained ?s'" using p(3) pc by (simp add: inv_drained_def drain_cur_def)
  show "inv_down ?s'" using p(9) pc by (auto simp: inv_down_def)
qed (use pipe_invD [OF inv] in \<open>auto simp: part_defs\<close>)

lemma inv_drain_close:
  assumes inv: "pipe_inv evs s" and pc: "drain s = D_close"
  shows "pipe_inv evs (s\<lparr>outputCh := (outputCh s)\<lparr>closed := True\<rparr>, drain := D_done\<rparr>)"
proof (rule pipe_invI)
  note p = pipe_invD [OF inv]
  let ?s' = "s\<lparr>outputCh := (outputCh s)\<lparr>closed := True\<rparr>, drain := D_done\<rparr>"
  show "inv_flow evs ?s'" using p(1) pc by (simp add: inv_flow_def in_flight_def)
  show "inv_queue ?s'" using p(2) pc by (simp add: inv_queue_def drain_next_def)
  show "inv_drained ?s'" using p(3) pc by (simp add: inv_drained_def drain_cur_def)
  show "inv_down ?s'" using p(9) pc by (auto simp: inv_down_def)
qed (use pipe_invD [OF inv] in \<open>auto simp: part_defs\<close>)

lemma inv_drain:
  assumes inv: "pipe_inv evs s" and st: "drain_step s = Some s'"
  shows "pipe_inv evs s'"
proof -
  from pipe_invD(9) [OF inv] have dn: "closed (outputCh s) = (drain s = D_done)" "\<not> panic s"
    by (simp_all add: inv_down_def)
  show ?thesis
  proof (cases "drain s")
    case D_next
    with st inv show ?thesis
      by (auto simp: drain_step_def split: list.splits if_splits
          intro: inv_drain_next inv_drain_finish)
  next
    case (D_range c)
    with st inv show ?thesis
      by (auto simp: drain_step_def split: list.splits if_splits
          intro: inv_drain_take inv_drain_leave)
  next
    case (D_send c v)
    with st inv dn show ?thesis
      by (auto simp: drain_step_def split: if_splits intro: inv_drain_send)
  next
    case D_close
    with st inv dn show ?thesis
      by (auto simp: drain_step_def split: if_splits intro: inv_drain_close)
  next
    case D_done
    with st show ?thesis by (simp add: drain_step_def)
  qed
qed

subsection \<open>The first goroutine\<close>

lemma unpushed_pc:
  "unpushed pc = 1 \<Longrightarrow> pc \<noteq> P_make \<and> pc \<noteq> P_done \<and> pc \<noteq> P_close_channels \<and> \<not> closing pc"
  by (cases pc) simp_all

lemma closing_pc: "pc = P_done \<or> pc = P_close_channels \<Longrightarrow> closing pc"
  by auto

lemma inv_pump_make:
  assumes inv: "pipe_inv evs s" and pc: "pump s = P_make"
  shows "pipe_inv evs (s\<lparr>segs := segs s @ [make_chan (capacity s)], currCh := length (segs s),
                        pump := P_push\<rparr>)"
proof (rule pipe_invI)
  note p = pipe_invD [OF inv]
  let ?s' = "s\<lparr>segs := segs s @ [make_chan (capacity s)], currCh := length (segs s),
                pump := P_push\<rparr>"
  from p(4) pc have e: "segs s = []" by (simp add: inv_curr_def)
  show "inv_flow evs ?s'" using p(1) pc e by (simp add: inv_flow_def in_flight_def make_chan_def)
  show "inv_queue ?s'" using p(2) pc e
    by (auto simp: inv_queue_def queue_defs split: option.splits)
  show "inv_drained ?s'" using p(2) p(3) pc e
    by (auto simp: inv_queue_def inv_drained_def queue_defs split: option.splits)
  show "inv_curr ?s'" by (simp add: inv_curr_def)
  show "inv_closed ?s'" using e by (simp add: inv_closed_def make_chan_def)
  show "inv_caps ?s'" using p(6) e by (simp add: inv_caps_def make_chan_def)
  show "inv_room ?s'" by (simp add: inv_room_def)
  show "inv_input ?s'" using p(8) pc by (simp add: inv_input_def)
  show "inv_down ?s'" using p(9) pc by (auto simp: inv_down_def)
qed

lemma inv_pump_push:
  assumes inv: "pipe_inv evs s" and u: "unpushed (pump s) = 1" and u': "unpushed pc = 0"
    and h: "holding pc = holding (pump s)" and c: "\<not> closing pc" "pc \<noteq> P_make"
    and r: "has_room pc \<longrightarrow> has_room (pump s)" "\<not> may_shrink pc"
  shows "pipe_inv evs (s\<lparr>channels := (channels s)\<lparr>buf := buf (channels s) @ [currCh s]\<rparr>,
                        pump := pc\<rparr>)"
proof (rule pipe_invI)
  note p = pipe_invD [OF inv]
  note n = unpushed_pc [OF u]
  let ?s' = "s\<lparr>channels := (channels s)\<lparr>buf := buf (channels s) @ [currCh s]\<rparr>, pump := pc\<rparr>"
  from c have c': "pc \<noteq> P_done" "pc \<noteq> P_close_channels" by auto
  from p(4) n have ne: "segs s \<noteq> []" and cur: "currCh s = length (segs s) - 1"
    by (simp_all add: inv_curr_def)
  from u have ps: "pushed s = length (segs s) - 1" by (simp add: pushed_def)
  from u' have ps': "pushed ?s' = length (segs s)" by (simp add: pushed_def)
  from p(2) have q: "buf (channels s) = [drain_next s..<pushed s]" "drain_next s \<le> pushed s"
    by (simp_all add: inv_queue_def)
  have dn: "drain_next ?s' = drain_next s"
    by (cases "reading (drain s)") (simp_all add: drain_next_def ps' ps)
  have dc: "drain_cur ?s' = drain_cur s"
    by (cases "reading (drain s)") (simp_all add: drain_cur_def ps' ps)
  have "length (segs s) = Suc (pushed s)" using ne ps by simp
  moreover have "currCh s = pushed s" by (simp add: cur ps)
  ultimately have "buf (channels s) @ [currCh s] = [drain_next s..<length (segs s)]"
    using q by simp
  moreover have "drain_next s \<le> length (segs s)" using q(2) ps by simp
  ultimately show "inv_queue ?s'" unfolding inv_queue_def dn ps' by simp
  show "inv_flow evs ?s'" using p(1) h by (simp add: inv_flow_def in_flight_def)
  show "inv_drained ?s'" using p(3) by (simp add: inv_drained_def dc)
  show "inv_curr ?s'" using p(4) n c by (simp add: inv_curr_def)
  show "inv_closed ?s'" using p(5) n c' by (simp add: inv_closed_def)
  show "inv_caps ?s'" using p(6) by (simp add: inv_caps_def)
  show "inv_room ?s'" using p(7) r by (simp add: inv_room_def)
  show "inv_input ?s'" using p(8) c by (simp add: inv_input_def)
  show "inv_down ?s'" using p(9) n c' by (auto simp: inv_down_def)
qed

lemma inv_pump_goto:
  assumes inv: "pipe_inv evs s" and u: "unpushed pc = unpushed (pump s)"
    and h: "holding pc = holding (pump s)"
    and c: "closing pc \<longrightarrow> closed (inputCh s) \<and> buf (inputCh s) = []"
    and k: "(pc = P_make) = (pump s = P_make)"
      "(pc = P_close_channels \<or> pc = P_done) = (pump s = P_close_channels \<or> pump s = P_done)"
      "(pc = P_done) = (pump s = P_done)"
    and r: "has_room pc \<longrightarrow> length (buf (segs s ! currCh s)) < cap (segs s ! currCh s)"
      "may_shrink pc \<longrightarrow> 2 \<le> cap (segs s ! currCh s)"
  shows "pipe_inv evs (s\<lparr>pump := pc\<rparr>)"
proof (rule pipe_invI)
  note p = pipe_invD [OF inv]
  have ps: "pushed (s\<lparr>pump := pc\<rparr>) = pushed s" using u by (simp add: pushed_def)
  have dn: "drain_next (s\<lparr>pump := pc\<rparr>) = drain_next s"
    by (simp add: drain_next_def ps cong: option.case_cong)
  have dc: "drain_cur (s\<lparr>pump := pc\<rparr>) = drain_cur s"
    by (simp add: drain_cur_def ps cong: option.case_cong)
  show "inv_flow evs (s\<lparr>pump := pc\<rparr>)" using p(1) h by (simp add: inv_flow_def in_flight_def)
  show "inv_queue (s\<lparr>pump := pc\<rparr>)" using p(2) by (simp add: inv_queue_def dn ps)
  show "inv_drained (s\<lparr>pump := pc\<rparr>)" using p(3) by (simp add: inv_drained_def dc)
  show "inv_curr (s\<lparr>pump := pc\<rparr>)" using p(4) k by (simp add: inv_curr_def)
  show "inv_closed (s\<lparr>pump := pc\<rparr>)" using p(5) k by (simp add: inv_closed_def)
  show "inv_caps (s\<lparr>pump := pc\<rparr>)" using p(6) by (simp add: inv_caps_def)
  show "inv_room (s\<lparr>pump := pc\<rparr>)" using r by (simp add: inv_room_def)
  show "inv_input (s\<lparr>pump := pc\<rparr>)" using p(8) c by (simp add: inv_input_def)
  show "inv_down (s\<lparr>pump := pc\<rparr>)" using p(9) k by (auto simp: inv_down_def)
qed

lemma drain_cur_le:
  assumes "inv_queue s"
  shows "drain_cur s \<le> length (segs s)"
  using assms
  by (cases "reading (drain s)") (auto simp: inv_queue_def drain_cur_def drain_next_def)

lemma inv_pump_rotate:
  assumes inv: "pipe_inv evs s" and u: "unpushed (pump s) = 0" "unpushed pc = 1"
    and h: "holding pc = holding (pump s)"
    and k: "pump s \<noteq> P_make" "\<not> closing (pump s)"
    and r: "1 \<le> n" "\<not> may_shrink pc"
  shows "pipe_inv evs (s\<lparr>segs := close_seg (currCh s) (segs s) @ [make_chan n],
                        currCh := length (segs s), pump := pc\<rparr>)"
proof (rule pipe_invI)
  note p = pipe_invD [OF inv]
  note n = unpushed_pc [OF u(2)]
  let ?s' = "s\<lparr>segs := close_seg (currCh s) (segs s) @ [make_chan n],
                currCh := length (segs s), pump := pc\<rparr>"
  from k have k': "pump s \<noteq> P_done" "pump s \<noteq> P_close_channels" by auto
  from p(4) k have ne: "segs s \<noteq> []" and cur: "currCh s = length (segs s) - 1"
    by (simp_all add: inv_curr_def)
  have ps: "pushed ?s' = pushed s" using u by (simp add: pushed_def)
  have dn: "drain_next ?s' = drain_next s"
    by (cases "reading (drain s)") (simp_all add: drain_next_def ps)
  have dc: "drain_cur ?s' = drain_cur s"
    by (cases "reading (drain s)") (simp_all add: drain_cur_def ps)
  note le = drain_cur_le [OF p(2)]
  show "inv_flow evs ?s'"
    using p(1) h by (simp add: inv_flow_def in_flight_def map_buf_close_seg make_chan_def)
  show "inv_queue ?s'" using p(2) unfolding inv_queue_def dn ps by simp
  show "inv_drained ?s'" using p(3) le unfolding inv_drained_def dc by (auto simp: nth_append)
  show "inv_curr ?s'" using n by (simp add: inv_curr_def)
  show "inv_closed ?s'"
    using p(5) n k' ne cur
    by (auto simp: inv_closed_def nth_append make_chan_def less_Suc_eq)
  show "inv_caps ?s'" using p(6) r by (auto simp: inv_caps_def nth_append make_chan_def less_Suc_eq)
  show "inv_room ?s'" using r by (simp add: inv_room_def make_chan_def nth_append)
  show "inv_input ?s'" using p(8) n by (simp add: inv_input_def)
  show "inv_down ?s'" using p(9) n k' by (auto simp: inv_down_def)
qed

lemma inv_pump_recv:
  assumes inv: "pipe_inv evs s" and pc: "pump s = P_range" and b: "buf (inputCh s) = e # es"
  shows "pipe_inv evs (s\<lparr>inputCh := (inputCh s)\<lparr>buf := es\<rparr>, pump := P_check1 e\<rparr>)"
proof (rule pipe_invI)
  note p = pipe_invD [OF inv]
  let ?s' = "s\<lparr>inputCh := (inputCh s)\<lparr>buf := es\<rparr>, pump := P_check1 e\<rparr>"
  have ps: "pushed ?s' = pushed s" using pc by (simp add: pushed_def)
  have dn: "drain_next ?s' = drain_next s"
    by (cases "reading (drain s)") (simp_all add: drain_next_def ps)
  have dc: "drain_cur ?s' = drain_cur s"
    by (cases "reading (drain s)") (simp_all add: drain_cur_def ps)
  show "inv_flow evs ?s'" using p(1) pc b by (simp add: inv_flow_def in_flight_def)
  show "inv_queue ?s'" using p(2) unfolding inv_queue_def dn ps by simp
  show "inv_drained ?s'" using p(3) unfolding inv_drained_def dc by simp
  show "inv_curr ?s'" using p(4) pc by (simp add: inv_curr_def)
  show "inv_closed ?s'" using p(5) pc by (simp add: inv_closed_def)
  show "inv_caps ?s'" using p(6) by (simp add: inv_caps_def)
  show "inv_room ?s'" by (simp add: inv_room_def)
  show "inv_input ?s'" using p(8) by (simp add: inv_input_def)
  show "inv_down ?s'" using p(9) pc by (auto simp: inv_down_def)
qed

lemma inv_pump_send:
  assumes inv: "pipe_inv evs s" and pc: "pump s = P_send e"
  shows "pipe_inv evs
           (s\<lparr>segs := (segs s)[currCh s :=
                      (segs s ! currCh s)\<lparr>buf := buf (segs s ! currCh s) @ [e]\<rparr>],
              pump := P_range\<rparr>)"
proof (rule pipe_invI)
  note p = pipe_invD [OF inv]
  let ?s' = "s\<lparr>segs := (segs s)[currCh s :=
                      (segs s ! currCh s)\<lparr>buf := buf (segs s ! currCh s) @ [e]\<rparr>],
              pump := P_range\<rparr>"
  from p(4) pc have ne: "segs s \<noteq> []" and cur: "currCh s = length (segs s) - 1"
    by (simp_all add: inv_curr_def)
  from p(5) pc ne have op: "\<not> closed (segs s ! currCh s)"
    by (simp add: inv_closed_def cur)
  have ps: "pushed ?s' = pushed s" using pc by (simp add: pushed_def)
  have dn: "drain_next ?s' = drain_next s"
    by (cases "reading (drain s)") (simp_all add: drain_next_def ps)
  have dc: "drain_cur ?s' = drain_cur s"
    by (cases "reading (drain s)") (simp_all add: drain_cur_def ps)
  note le = drain_cur_le [OF p(2)]
  show "inv_flow evs ?s'"
    using p(1) pc concat_append_last [OF ne, of e] by (simp add: inv_flow_def in_flight_def cur)
  show "inv_queue ?s'" using p(2) unfolding inv_queue_def dn ps by simp
  show "inv_drained ?s'" using p(3) le op unfolding inv_drained_def dc by auto
  show "inv_curr ?s'" using p(4) pc by (simp add: inv_curr_def)
  show "inv_closed ?s'" using p(5) pc by (simp add: inv_closed_def)
  show "inv_caps ?s'" using p(6) by (simp add: inv_caps_def)
  show "inv_room ?s'" by (simp add: inv_room_def)
  show "inv_input ?s'" using p(8) pc by (simp add: inv_input_def)
  show "inv_down ?s'" using p(9) pc by (auto simp: inv_down_def)
qed

lemma inv_pump_close_curr:
  assumes inv: "pipe_inv evs s" and pc: "pump s = P_close_curr"
  shows "pipe_inv evs (s\<lparr>segs := close_seg (currCh s) (segs s), pump := P_close_channels\<rparr>)"
proof (rule pipe_invI)
  note p = pipe_invD [OF inv]
  let ?s' = "s\<lparr>segs := close_seg (currCh s) (segs s), pump := P_close_channels\<rparr>"
  from p(4) pc have ne: "segs s \<noteq> []" and cur: "currCh s = length (segs s) - 1"
    by (simp_all add: inv_curr_def)
  have ps: "pushed ?s' = pushed s" using pc by (simp add: pushed_def)
  have dn: "drain_next ?s' = drain_next s"
    by (cases "reading (drain s)") (simp_all add: drain_next_def ps)
  have dc: "drain_cur ?s' = drain_cur s"
    by (cases "reading (drain s)") (simp_all add: drain_cur_def ps)
  note le = drain_cur_le [OF p(2)]
  show "inv_flow evs ?s'" using p(1) pc by (simp add: inv_flow_def in_flight_def map_buf_close_seg)
  show "inv_queue ?s'" using p(2) unfolding inv_queue_def dn ps by simp
  show "inv_drained ?s'" using p(3) le unfolding inv_drained_def dc by auto
  show "inv_curr ?s'" using p(4) pc by (simp add: inv_curr_def)
  show "inv_closed ?s'" using p(5) pc ne cur by (auto simp: inv_closed_def)
  show "inv_caps ?s'" using p(6) by (simp add: inv_caps_def)
  show "inv_room ?s'" by (simp add: inv_room_def)
  show "inv_input ?s'" using p(8) pc by (simp add: inv_input_def)
  show "inv_down ?s'" using p(9) pc by (auto simp: inv_down_def)
qed

lemma inv_pump_close_channels:
  assumes inv: "pipe_inv evs s" and pc: "pump s = P_close_channels"
  shows "pipe_inv evs (s\<lparr>channels := (channels s)\<lparr>closed := True\<rparr>, pump := P_done\<rparr>)"
proof (rule pipe_invI)
  note p = pipe_invD [OF inv]
  let ?s' = "s\<lparr>channels := (channels s)\<lparr>closed := True\<rparr>, pump := P_done\<rparr>"
  have ps: "pushed ?s' = pushed s" using pc by (simp add: pushed_def)
  have dn: "drain_next ?s' = drain_next s"
    by (cases "reading (drain s)") (simp_all add: drain_next_def ps)
  have dc: "drain_cur ?s' = drain_cur s"
    by (cases "reading (drain s)") (simp_all add: drain_cur_def ps)
  show "inv_flow evs ?s'" using p(1) pc by (simp add: inv_flow_def in_flight_def)
  show "inv_queue ?s'" using p(2) unfolding inv_queue_def dn ps by simp
  show "inv_drained ?s'" using p(3) unfolding inv_drained_def dc by simp
  show "inv_curr ?s'" using p(4) pc by (simp add: inv_curr_def)
  show "inv_closed ?s'" using p(5) pc by (simp add: inv_closed_def)
  show "inv_caps ?s'" using p(6) by (simp add: inv_caps_def)
  show "inv_room ?s'" by (simp add: inv_room_def)
  show "inv_input ?s'" using p(8) pc by (simp add: inv_input_def)
  show "inv_down ?s'" using p(9) pc by (auto simp: inv_down_def)
qed

lemma inv_pump:
  assumes inv: "pipe_inv evs s" and st: "pump_step s = Some s'"
  shows "pipe_inv evs s'"
proof -
  note p = pipe_invD [OF inv]
  have chan_open: "\<not> closed (channels s)" if "pump s \<noteq> P_done"
    using p(9) that by (simp add: inv_down_def)
  have cur_open: "\<not> closed (segs s ! currCh s)" if "pump s \<noteq> P_make" "\<not> closing (pump s)"
  proof -
    from p(4) that have "segs s \<noteq> []" "currCh s = length (segs s) - 1"
      by (simp_all add: inv_curr_def)
    moreover from that(2) have "pump s \<noteq> P_done" "pump s \<noteq> P_close_channels" by auto
    ultimately show ?thesis using p(5) by (simp add: inv_closed_def)
  qed
  have cur_cap: "1 \<le> cap (segs s ! currCh s)" if "pump s \<noteq> P_make"
  proof -
    from p(4) that have "segs s \<noteq> []" "currCh s = length (segs s) - 1"
      by (simp_all add: inv_curr_def)
    then show ?thesis using p(6) by (simp add: inv_caps_def)
  qed
  show ?thesis
  proof (cases "pump s")
    case P_make
    with st inv show ?thesis by (auto simp: pump_step_def intro: inv_pump_make)
  next
    case P_push
    with st chan_open have "s' = s\<lparr>channels := (channels s)\<lparr>buf := buf (channels s) @ [currCh s]\<rparr>,
        pump := P_range\<rparr>"
      by (auto simp: pump_step_def push_curr_def split: if_splits)
    with inv P_push show ?thesis by (auto intro: inv_pump_push)
  next
    case P_range
    show ?thesis
    proof (cases "buf (inputCh s)")
      case Nil
      with st P_range have s': "s' = s\<lparr>pump := P_close_curr\<rparr>" and cl: "closed (inputCh s)"
        by (auto simp: pump_step_def split: if_splits)
      show ?thesis unfolding s' using inv P_range Nil cl by (intro inv_pump_goto) auto
    next
      case (Cons e es)
      with st P_range have "s' = s\<lparr>inputCh := (inputCh s)\<lparr>buf := es\<rparr>, pump := P_check1 e\<rparr>"
        by (auto simp: pump_step_def)
      with inv P_range Cons show ?thesis by (auto intro: inv_pump_recv)
    qed
  next
    case (P_check1 e)
    show ?thesis
    proof (cases "cap (segs s ! currCh s) div 2 \<le> length (buf (segs s ! currCh s))")
      case True
      with st P_check1 have s': "s' = s\<lparr>pump := P_grow e\<rparr>" by (auto simp: pump_step_def)
      show ?thesis unfolding s' using inv P_check1 by (intro inv_pump_goto) auto
    next
      case False
      with st P_check1 have s': "s' = s\<lparr>pump := P_check2a e\<rparr>" by (auto simp: pump_step_def)
      from False have "length (buf (segs s ! currCh s)) < cap (segs s ! currCh s)" by simp
      then show ?thesis unfolding s' using inv P_check1 by (intro inv_pump_goto) auto
    qed
  next
    case (P_grow e)
    with st cur_open have "s' = s\<lparr>segs := close_seg (currCh s) (segs s)
            @ [make_chan (cap (segs s ! currCh s) * 2)],
          currCh := length (segs s), pump := P_push_grow e\<rparr>"
      by (auto simp: pump_step_def rotate_seg_def split: if_splits)
    moreover have "1 \<le> cap (segs s ! currCh s) * 2" using cur_cap P_grow by simp
    ultimately show ?thesis using inv P_grow by (auto intro!: inv_pump_rotate)
  next
    case (P_push_grow e)
    with st chan_open have "s' = s\<lparr>channels := (channels s)\<lparr>buf := buf (channels s) @ [currCh s]\<rparr>,
        pump := P_check2a e\<rparr>"
      by (auto simp: pump_step_def push_curr_def split: if_splits)
    with inv P_push_grow show ?thesis by (auto intro: inv_pump_push)
  next
    case (P_check2a e)
    from p(7) P_check2a have room: "length (buf (segs s ! currCh s)) < cap (segs s ! currCh s)"
      by (simp add: inv_room_def)
    show ?thesis
    proof (cases "capacity s \<le> length (buf (segs s ! currCh s))")
      case True
      with st P_check2a have s': "s' = s\<lparr>pump := P_check2b e\<rparr>" by (auto simp: pump_step_def)
      from True room p(6) have "2 \<le> cap (segs s ! currCh s)" by (simp add: inv_caps_def)
      then show ?thesis unfolding s' using inv P_check2a room by (intro inv_pump_goto) auto
    next
      case False
      with st P_check2a have s': "s' = s\<lparr>pump := P_send e\<rparr>" by (auto simp: pump_step_def)
      show ?thesis unfolding s' using inv P_check2a room by (intro inv_pump_goto) auto
    qed
  next
    case (P_check2b e)
    from p(7) P_check2b have room: "length (buf (segs s ! currCh s)) < cap (segs s ! currCh s)"
      "2 \<le> cap (segs s ! currCh s)"
      by (simp_all add: inv_room_def)
    show ?thesis
    proof (cases "length (buf (segs s ! currCh s)) \<le> cap (segs s ! currCh s) div 4")
      case True
      with st P_check2b have s': "s' = s\<lparr>pump := P_shrink e\<rparr>" by (auto simp: pump_step_def)
      show ?thesis unfolding s' using inv P_check2b room by (intro inv_pump_goto) auto
    next
      case False
      with st P_check2b have s': "s' = s\<lparr>pump := P_send e\<rparr>" by (auto simp: pump_step_def)
      show ?thesis unfolding s' using inv P_check2b room by (intro inv_pump_goto) auto
    qed
  next
    case (P_shrink e)
    with st cur_open have "s' = s\<lparr>segs := close_seg (currCh s) (segs s)
            @ [make_chan (cap (segs s ! currCh s) div 2)],
          currCh := length (segs s), pump := P_push_shrink e\<rparr>"
      by (auto simp: pump_step_def rotate_seg_def split: if_splits)
    moreover from p(7) P_shrink have "1 \<le> cap (segs s ! currCh s) div 2"
      by (simp add: inv_room_def)
    ultimately show ?thesis using inv P_shrink by (auto intro!: inv_pump_rotate)
  next
    case (P_push_shrink e)
    with st chan_open have "s' = s\<lparr>channels := (channels s)\<lparr>buf := buf (channels s) @ [currCh s]\<rparr>,
        pump := P_send e\<rparr>"
      by (auto simp: pump_step_def push_curr_def split: if_splits)
    with inv P_push_shrink show ?thesis by (auto intro: inv_pump_push)
  next
    case (P_send e)
    with st cur_open have "s' = s\<lparr>segs := (segs s)[currCh s :=
                      (segs s ! currCh s)\<lparr>buf := buf (segs s ! currCh s) @ [e]\<rparr>],
              pump := P_range\<rparr>"
      by (auto simp: pump_step_def split: if_splits)
    with inv P_send show ?thesis by (auto intro: inv_pump_send)
  next
    case P_close_curr
    have "\<not> closed (segs s ! currCh s)"
    proof -
      from p(4) P_close_curr have "segs s \<noteq> []" "currCh s = length (segs s) - 1"
        by (simp_all add: inv_curr_def)
      then show ?thesis using p(5) P_close_curr by (simp add: inv_closed_def)
    qed
    with st P_close_curr
    have "s' = s\<lparr>segs := close_seg (currCh s) (segs s), pump := P_close_channels\<rparr>"
      by (auto simp: pump_step_def)
    with inv P_close_curr show ?thesis by (auto intro: inv_pump_close_curr)
  next
    case P_close_channels
    with st chan_open
    have "s' = s\<lparr>channels := (channels s)\<lparr>closed := True\<rparr>, pump := P_done\<rparr>"
      by (auto simp: pump_step_def)
    with inv P_close_channels show ?thesis by (auto intro: inv_pump_close_channels)
  next
    case P_done
    with st show ?thesis by (simp add: pump_step_def)
  qed
qed

subsection \<open>Runs\<close>

lemma inv_turn: "pipe_inv evs s \<Longrightarrow> pipe_inv evs (turn a s)"
  by (cases a; cases "pipe_step a s")
     (auto simp: turn_def intro: inv_sender inv_pump inv_drain inv_reader)

lemma inv_run: "pipe_inv evs s \<Longrightarrow> pipe_inv evs (pipe_run sched s)"
  unfolding pipe_run_def by (induction sched arbitrary: s) (simp_all add: inv_turn)

lemma inv_closed_output:
  assumes inv: "pipe_inv evs s" and cl: "closed (outputCh s)"
  shows "received s @ buf (outputCh s) = evs"
proof -
  note p = pipe_invD [OF inv]
  from p(9) cl have d: "drain s = D_done" and pd: "pump s = P_done" and q: "buf (channels s) = []"
    by (auto simp: inv_down_def)
  from p(3) d pd q have "\<forall>i < length (segs s). buf (segs s ! i) = []"
    by (simp add: inv_drained_def drain_cur_def pushed_def)
  then have "concat (map buf (segs s)) = []" by (rule concat_all_empty)
  moreover from p(8) pd have "buf (inputCh s) = []" "pending s = []"
    by (simp_all add: inv_input_def)
  ultimately show ?thesis using p(1) d pd
    by (simp add: inv_flow_def in_flight_def del: concat_eq_Nil_conv)
qed

lemma pipe_safe:
  assumes "1 \<le> n"
  shows "prefix (received (pipe_run sched (PipeChan n evs))) evs
       \<and> (closed (outputCh (pipe_run sched (PipeChan n evs))) \<longrightarrow>
            received (pipe_run sched (PipeChan n evs))
              @ buf (outputCh (pipe_run sched (PipeChan n evs))) = evs)
       \<and> (sawClosed (pipe_run sched (PipeChan n evs)) \<longrightarrow>
            received (pipe_run sched (PipeChan n evs)) = evs)
       \<and> \<not> panic (pipe_run sched (PipeChan n evs))"
proof -
  let ?s = "pipe_run sched (PipeChan n evs)"
  from assms have inv: "pipe_inv evs ?s" by (intro inv_run inv_init)
  note p = pipe_invD [OF inv]
  from p(1) have "evs = received ?s @ (buf (outputCh ?s) @ draining (drain ?s)
      @ concat (map buf (segs ?s)) @ holding (pump ?s) @ buf (inputCh ?s) @ pending ?s)"
    by (simp add: inv_flow_def in_flight_def)
  then have "prefix (received ?s) evs" by (rule prefixI)
  moreover have "received ?s = evs" if "sawClosed ?s"
    using that p(9) inv_closed_output [OF inv] by (auto simp: inv_down_def)
  moreover from p(9) have "\<not> panic ?s" by (simp add: inv_down_def)
  ultimately show ?thesis using inv_closed_output [OF inv] by blast
qed

subsection \<open>Every step uses up some of the weight\<close>

lemma dec_sender:
  assumes inv: "pipe_inv evs s" and st: "sender_step s = Some s'"
  shows "weight s' < weight s"
proof (cases "pending s")
  case Nil
  with st have "s' = s\<lparr>inputCh := (inputCh s)\<lparr>closed := True\<rparr>\<rparr>" "\<not> closed (inputCh s)"
    by (auto simp: sender_step_def split: if_splits)
  then show ?thesis by (simp add: weight_def)
next
  case (Cons x xs)
  from pipe_invD(8) [OF inv] Cons have "\<not> closed (inputCh s)" by (auto simp: inv_input_def)
  with st Cons
  have "s' = s\<lparr>pending := xs, inputCh := (inputCh s)\<lparr>buf := buf (inputCh s) @ [x]\<rparr>\<rparr>"
    by (auto simp: sender_step_def split: if_splits)
  then show ?thesis using Cons by (simp add: weight_def)
qed

lemma dec_reader:
  assumes st: "reader_step s = Some s'"
  shows "weight s' < weight s"
proof (cases "buf (outputCh s)")
  case Nil
  with st have "s' = s\<lparr>sawClosed := True\<rparr>" "\<not> sawClosed s"
    by (auto simp: reader_step_def split: if_splits)
  then show ?thesis by (simp add: weight_def)
next
  case (Cons v vs)
  with st
  have "s' = s\<lparr>outputCh := (outputCh s)\<lparr>buf := vs\<rparr>, received := received s @ [v]\<rparr>"
    by (auto simp: reader_step_def)
  then show ?thesis using Cons by (simp add: weight_def)
qed

lemma dec_drain:
  assumes inv: "pipe_inv evs s" and st: "drain_step s = Some s'"
  shows "weight s' < weight s"
proof -
  note p = pipe_invD [OF inv]
  from p(9) have dn: "closed (outputCh s) = (drain s = D_done)" by (simp add: inv_down_def)
  from p(2) have q: "buf (channels s) = [drain_next s..<pushed s]" "drain_next s \<le> pushed s"
    "pushed s \<le> length (segs s)"
    by (simp_all add: inv_queue_def)
  show ?thesis
  proof (cases "drain s")
    case D_next
    show ?thesis
    proof (cases "buf (channels s)")
      case Nil
      with st D_next have s': "s' = s\<lparr>drain := D_close\<rparr>"
        by (auto simp: drain_step_def split: if_splits)
      have "drain_next s' = drain_next s" using D_next by (simp add: s' drain_next_def)
      then show ?thesis using D_next by (simp add: weight_def s')
    next
      case (Cons c cs)
      with st D_next
      have s': "s' = s\<lparr>channels := (channels s)\<lparr>buf := cs\<rparr>, drain := D_range c\<rparr>"
        by (auto simp: drain_step_def)
      from q(1) Cons have "c # cs = [drain_next s..<pushed s]" by simp
      from upt_eq_ConsD [OF this] have c: "c = drain_next s" "drain_next s < pushed s" by simp_all
      have "drain_next s' = Suc (drain_next s)" using c by (simp add: s' drain_next_def)
      then show ?thesis using D_next c q(3) by (simp add: weight_def s')
    qed
  next
    case (D_range c)
    from p(2) D_range have c: "Suc c \<le> pushed s" "drain_next s = Suc c"
      by (simp_all add: inv_queue_def drain_next_def)
    with q have cl: "c < length (segs s)" by simp
    show ?thesis
    proof (cases "buf (segs s ! c)")
      case Nil
      with st D_range have s': "s' = s\<lparr>drain := D_next\<rparr>"
        by (auto simp: drain_step_def split: if_splits)
      from q c have "pushed s - length (buf (channels s)) = Suc c" by simp
      then have "drain_next s' = drain_next s" using c by (simp add: s' drain_next_def)
      then show ?thesis using D_range by (simp add: weight_def s')
    next
      case (Cons v vs)
      with st D_range
      have s': "s' = s\<lparr>segs := (segs s)[c := (segs s ! c)\<lparr>buf := vs\<rparr>], drain := D_send c v\<rparr>"
        by (auto simp: drain_step_def)
      from p(3) D_range have e: "\<forall>i < c. buf (segs s ! i) = []"
        by (simp add: inv_drained_def drain_cur_def)
      have len: "length (concat (map buf (segs s)))
          = Suc (length (concat (map buf ((segs s)[c := (segs s ! c)\<lparr>buf := vs\<rparr>]))))"
        using concat_take_head [OF cl e Cons] by simp
      have "drain_next s' = drain_next s" using c by (simp add: s' drain_next_def)
      then show ?thesis using D_range len by (simp add: weight_def s')
    qed
  next
    case (D_send c v)
    with st dn
    have s': "s' = s\<lparr>outputCh := (outputCh s)\<lparr>buf := buf (outputCh s) @ [v]\<rparr>, drain := D_range c\<rparr>"
      by (auto simp: drain_step_def split: if_splits)
    have "drain_next s' = drain_next s" using D_send by (simp add: s' drain_next_def)
    then show ?thesis using D_send by (simp add: weight_def s')
  next
    case D_close
    with st dn
    have s': "s' = s\<lparr>outputCh := (outputCh s)\<lparr>closed := True\<rparr>, drain := D_done\<rparr>"
      by (auto simp: drain_step_def split: if_splits)
    have "drain_next s' = drain_next s" using D_close by (simp add: s' drain_next_def)
    then show ?thesis using D_close by (simp add: weight_def s')
  next
    case D_done
    with st show ?thesis by (simp add: drain_step_def)
  qed
qed

lemma dec_pump:
  assumes inv: "pipe_inv evs s" and st: "pump_step s = Some s'"
  shows "weight s' < weight s"
proof -
  note p = pipe_invD [OF inv]
  from p(2) have le: "drain_next s \<le> length (segs s)" by (simp add: inv_queue_def)
  have chan_open: "\<not> closed (channels s)" if "pump s \<noteq> P_done"
    using p(9) that by (simp add: inv_down_def)
  have ne: "segs s \<noteq> []" "currCh s = length (segs s) - 1" if "pump s \<noteq> P_make"
    using p(4) that by (simp_all add: inv_curr_def)
  have cur_open: "\<not> closed (segs s ! currCh s)" if "pump s \<noteq> P_make" "\<not> closing (pump s)"
  proof -
    from that(2) have "pump s \<noteq> P_done" "pump s \<noteq> P_close_channels" by auto
    then show ?thesis using p(5) ne [OF that(1)] by (simp add: inv_closed_def)
  qed
  have goto: "weight (s\<lparr>pump := pc\<rparr>) < weight s"
    if "unpushed pc = unpushed (pump s)" "pump_rank pc < pump_rank (pump s)" for pc
  proof -
    have "drain_next (s\<lparr>pump := pc\<rparr>) = drain_next s"
      using that(1) by (cases "reading (drain s)") (simp_all add: drain_next_def pushed_def)
    then show ?thesis using that(2) by (simp add: weight_def)
  qed
  have push: "weight (s\<lparr>channels := (channels s)\<lparr>buf := buf (channels s) @ [currCh s]\<rparr>,
                        pump := pc\<rparr>) < weight s"
    if "unpushed (pump s) = 1" "unpushed pc = 0" "pump_rank pc < pump_rank (pump s)" for pc
  proof -
    from that(1) have "pump s \<noteq> P_make" by auto
    note n = ne [OF this]
    have "drain_next (s\<lparr>channels := (channels s)\<lparr>buf := buf (channels s) @ [currCh s]\<rparr>,
                        pump := pc\<rparr>) = drain_next s"
      using that(1,2) n
      by (cases "reading (drain s)") (simp_all add: drain_next_def pushed_def)
    then show ?thesis using that(3) by (simp add: weight_def)
  qed
  have rot: "weight (s\<lparr>segs := close_seg (currCh s) (segs s) @ [make_chan k],
                       currCh := length (segs s), pump := pc\<rparr>) < weight s"
    if "unpushed (pump s) = 0" "unpushed pc = 1" "pump_rank pc + 3 \<le> pump_rank (pump s)" for pc k
  proof -
    have "drain_next (s\<lparr>segs := close_seg (currCh s) (segs s) @ [make_chan k],
                       currCh := length (segs s), pump := pc\<rparr>) = drain_next s"
      using that(1,2)
      by (cases "reading (drain s)") (simp_all add: drain_next_def pushed_def)
    then show ?thesis using that(3) le
      by (simp add: weight_def map_buf_close_seg make_chan_def)
  qed
  show ?thesis
  proof (cases "pump s")
    case P_make
    with st have s': "s' = s\<lparr>segs := segs s @ [make_chan (capacity s)], currCh := length (segs s),
                        pump := P_push\<rparr>"
      by (auto simp: pump_step_def)
    from p(4) P_make have e: "segs s = []" by (simp add: inv_curr_def)
    have "drain_next s' = drain_next s"
      using P_make e by (cases "reading (drain s)") (simp_all add: s' drain_next_def pushed_def)
    then show ?thesis using P_make e le by (simp add: weight_def s' make_chan_def)
  next
    case P_push
    with st chan_open have "s' = s\<lparr>channels := (channels s)\<lparr>buf := buf (channels s) @ [currCh s]\<rparr>,
        pump := P_range\<rparr>"
      by (auto simp: pump_step_def push_curr_def split: if_splits)
    then show ?thesis using push [of P_range] P_push by simp
  next
    case P_range
    show ?thesis
    proof (cases "buf (inputCh s)")
      case Nil
      with st P_range have "s' = s\<lparr>pump := P_close_curr\<rparr>"
        by (auto simp: pump_step_def split: if_splits)
      then show ?thesis using goto [of P_close_curr] P_range by simp
    next
      case (Cons e es)
      with st P_range have s': "s' = s\<lparr>inputCh := (inputCh s)\<lparr>buf := es\<rparr>, pump := P_check1 e\<rparr>"
        by (auto simp: pump_step_def)
      have "drain_next s' = drain_next s"
        using P_range by (cases "reading (drain s)") (simp_all add: s' drain_next_def pushed_def)
      then show ?thesis using P_range Cons by (simp add: weight_def s')
    qed
  next
    case (P_check1 e)
    with st have "s' = s\<lparr>pump := P_grow e\<rparr> \<or> s' = s\<lparr>pump := P_check2a e\<rparr>"
      by (auto simp: pump_step_def split: if_splits)
    then show ?thesis using goto [of "P_grow e"] goto [of "P_check2a e"] P_check1 by auto
  next
    case (P_grow e)
    with st cur_open have "s' = s\<lparr>segs := close_seg (currCh s) (segs s)
            @ [make_chan (cap (segs s ! currCh s) * 2)],
          currCh := length (segs s), pump := P_push_grow e\<rparr>"
      by (auto simp: pump_step_def rotate_seg_def split: if_splits)
    then show ?thesis using rot [of "P_push_grow e"] P_grow by simp
  next
    case (P_push_grow e)
    with st chan_open have "s' = s\<lparr>channels := (channels s)\<lparr>buf := buf (channels s) @ [currCh s]\<rparr>,
        pump := P_check2a e\<rparr>"
      by (auto simp: pump_step_def push_curr_def split: if_splits)
    then show ?thesis using push [of "P_check2a e"] P_push_grow by simp
  next
    case (P_check2a e)
    with st have "s' = s\<lparr>pump := P_check2b e\<rparr> \<or> s' = s\<lparr>pump := P_send e\<rparr>"
      by (auto simp: pump_step_def split: if_splits)
    then show ?thesis using goto [of "P_check2b e"] goto [of "P_send e"] P_check2a by auto
  next
    case (P_check2b e)
    with st have "s' = s\<lparr>pump := P_shrink e\<rparr> \<or> s' = s\<lparr>pump := P_send e\<rparr>"
      by (auto simp: pump_step_def split: if_splits)
    then show ?thesis using goto [of "P_shrink e"] goto [of "P_send e"] P_check2b by auto
  next
    case (P_shrink e)
    with st cur_open have "s' = s\<lparr>segs := close_seg (currCh s) (segs s)
            @ [make_chan (cap (segs s ! currCh s) div 2)],
          currCh := length (segs s), pump := P_push_shrink e\<rparr>"
      by (auto simp: pump_step_def rotate_seg_def split: if_splits)
    then show ?thesis using rot [of "P_push_shrink e"] P_shrink by simp
  next
    case (P_push_shrink e)
    with st chan_open have "s' = s\<lparr>channels := (channels s)\<lparr>buf := buf (channels s) @ [currCh s]\<rparr>,
        pump := P_send e\<rparr>"
      by (auto simp: pump_step_def push_curr_def split: if_splits)
    then show ?thesis using push [of "P_send e"] P_push_shrink by simp
  next
    case (P_send e)
    with st cur_open have s': "s' = s\<lparr>segs := (segs s)[currCh s :=
                      (segs s ! currCh s)\<lparr>buf := buf (segs s ! currCh s) @ [e]\<rparr>],
              pump := P_range\<rparr>"
      by (auto simp: pump_step_def split: if_splits)
    from P_send have n: "segs s \<noteq> []" "currCh s = length (segs s) - 1" by (simp_all add: ne)
    have "drain_next s' = drain_next s"
      using P_send by (cases "reading (drain s)") (simp_all add: s' drain_next_def pushed_def)
    moreover have "length (concat (map buf (segs s'))) = Suc (length (concat (map buf (segs s))))"
      using concat_append_last [OF n(1), of e] by (simp add: s' n(2))
    ultimately show ?thesis using P_send by (simp add: weight_def) (simp add: s')
  next
    case P_close_curr
    then have "pump s \<noteq> P_make" by simp
    note n = ne [OF this]
    from p(5) P_close_curr n have "\<not> closed (segs s ! currCh s)" by (simp add: inv_closed_def)
    with st P_close_curr
    have s': "s' = s\<lparr>segs := close_seg (currCh s) (segs s), pump := P_close_channels\<rparr>"
      by (auto simp: pump_step_def)
    have "drain_next s' = drain_next s"
      using P_close_curr
      by (cases "reading (drain s)") (simp_all add: s' drain_next_def pushed_def)
    then show ?thesis using P_close_curr by (simp add: weight_def s' map_buf_close_seg)
  next
    case P_close_channels
    with st chan_open
    have s': "s' = s\<lparr>channels := (channels s)\<lparr>closed := True\<rparr>, pump := P_done\<rparr>"
      by (auto simp: pump_step_def)
    have "drain_next s' = drain_next s"
      using P_close_channels
      by (cases "reading (drain s)") (simp_all add: s' drain_next_def pushed_def)
    then show ?thesis using P_close_channels by (simp add: weight_def s')
  next
    case P_done
    with st show ?thesis by (simp add: pump_step_def)
  qed
qed

lemma dec_step:
  assumes "pipe_inv evs s" "pipe_step a s = Some s'"
  shows "weight s' < weight s"
  using assms by (cases a) (auto intro: dec_sender dec_pump dec_drain dec_reader)

subsection \<open>Some actor can always move, until the reader has seen the close\<close>

lemma pump_or_sender:
  assumes inv: "pipe_inv evs s" and nd: "pump s \<noteq> P_done"
    and room: "unpushed (pump s) = 1 \<longrightarrow> length (buf (channels s)) < cap (channels s)"
  shows "pump_step s \<noteq> None \<or> sender_step s \<noteq> None"
proof -
  note p = pipe_invD [OF inv]
  from p(9) nd have op: "\<not> closed (channels s)" by (simp add: inv_down_def)
  show ?thesis
  proof (cases "pump s")
    case P_range
    show ?thesis
    proof (cases "buf (inputCh s) = [] \<and> \<not> closed (inputCh s)")
      case False
      with P_range have "pump_step s \<noteq> None"
        by (auto simp: pump_step_def split: list.splits)
      then show ?thesis ..
    next
      case True
      with p(6) have "length (buf (inputCh s)) < cap (inputCh s)" by (simp add: inv_caps_def)
      with True have "sender_step s \<noteq> None"
        by (auto simp: sender_step_def split: list.splits)
      then show ?thesis ..
    qed
  next
    case (P_send e)
    with p(7) have "length (buf (segs s ! currCh s)) < cap (segs s ! currCh s)"
      by (simp add: inv_room_def)
    with P_send have "pump_step s \<noteq> None" by (simp add: pump_step_def)
    then show ?thesis ..
  next
    case P_done
    with nd show ?thesis by simp
  qed (use op room in \<open>auto simp: pump_step_def push_curr_def rotate_seg_def\<close>)
qed

lemma progress:
  assumes inv: "pipe_inv evs s" and ns: "\<not> sawClosed s"
  shows "\<exists>a. pipe_step a s \<noteq> None"
proof (cases "buf (outputCh s) \<noteq> [] \<or> closed (outputCh s)")
  case True
  with ns have "pipe_step Reader s \<noteq> None"
    by (auto simp: reader_step_def split: list.splits)
  then show ?thesis ..
next
  case False
  note p = pipe_invD [OF inv]
  from False p(6) have out: "\<not> closed (outputCh s)" "length (buf (outputCh s)) < cap (outputCh s)"
    by (simp_all add: inv_caps_def)
  from p(2) have q: "buf (channels s) = [drain_next s..<pushed s]" "drain_next s \<le> pushed s"
    "pushed s \<le> length (segs s)"
    by (simp_all add: inv_queue_def)
  have via_pump: "\<exists>a. pipe_step a s \<noteq> None"
    if "pump s \<noteq> P_done"
      "unpushed (pump s) = 1 \<longrightarrow> length (buf (channels s)) < cap (channels s)"
  proof -
    from pump_or_sender [OF inv that]
    have "pipe_step Pump s \<noteq> None \<or> pipe_step Sender s \<noteq> None" by simp
    then show ?thesis by blast
  qed
  show ?thesis
  proof (cases "drain s")
    case D_next
    show ?thesis
    proof (cases "buf (channels s) = [] \<and> \<not> closed (channels s)")
      case False
      with D_next have "pipe_step Drain s \<noteq> None"
        by (auto simp: drain_step_def split: list.splits)
      then show ?thesis ..
    next
      case True
      with p(9) have "pump s \<noteq> P_done" by (simp add: inv_down_def)
      moreover from True p(6) have "length (buf (channels s)) < cap (channels s)"
        by (simp add: inv_caps_def)
      ultimately show ?thesis by (intro via_pump) simp_all
    qed
  next
    case (D_range c)
    show ?thesis
    proof (cases "buf (segs s ! c) = [] \<and> \<not> closed (segs s ! c)")
      case False
      with D_range have "pipe_step Drain s \<noteq> None"
        by (auto simp: drain_step_def split: list.splits)
      then show ?thesis ..
    next
      case True
      from q D_range have c: "Suc c \<le> pushed s" by (simp add: drain_next_def)
      with q(3) have cl: "c < length (segs s)" by simp
      from p(5) cl True have last: "\<not> Suc c < length (segs s)" "pump s \<noteq> P_close_channels"
        "pump s \<noteq> P_done"
        by (auto simp: inv_closed_def)
      with c q(3) have "pushed s = length (segs s)" by simp
      with cl have "unpushed (pump s) = 0" by (simp add: pushed_def)
      with last show ?thesis by (intro via_pump) simp_all
    qed
  next
    case (D_send c v)
    with out have "pipe_step Drain s \<noteq> None" by (simp add: drain_step_def)
    then show ?thesis ..
  next
    case D_close
    with out have "pipe_step Drain s \<noteq> None" by (simp add: drain_step_def)
    then show ?thesis ..
  next
    case D_done
    with p(9) out show ?thesis by (simp add: inv_down_def)
  qed
qed

subsection \<open>Every run can be completed\<close>

lemma completes:
  assumes "pipe_inv evs s"
  shows "\<exists>sched. sawClosed (pipe_run sched s)"
  using assms
proof (induction "weight s" arbitrary: s rule: less_induct)
  case less
  show ?case
  proof (cases "sawClosed s")
    case True
    then have "sawClosed (pipe_run [] s)" by (simp add: pipe_run_def)
    then show ?thesis ..
  next
    case False
    from progress [OF less.prems False] obtain a s' where st: "pipe_step a s = Some s'"
      by auto
    from less.prems st have "pipe_inv evs s'" using inv_turn [of evs s a] by (simp add: turn_def)
    moreover from less.prems st have "weight s' < weight s" by (rule dec_step)
    ultimately obtain sched where "sawClosed (pipe_run sched s')"
      using less.hyps by blast
    with st have "sawClosed (pipe_run (a # sched) s)" by (simp add: pipe_run_def turn_def)
    then show ?thesis ..
  qed
qed

lemma pipe_run_append: "pipe_run (xs @ ys) s = pipe_run ys (pipe_run xs s)"
  by (simp add: pipe_run_def)

lemma pipe_complete:
  assumes "1 \<le> n"
  shows "\<exists>rest. sawClosed (pipe_run (sched @ rest) (PipeChan n evs))
              \<and> received (pipe_run (sched @ rest) (PipeChan n evs)) = evs"
proof -
  from assms have inv: "pipe_inv evs (pipe_run sched (PipeChan n evs))"
    by (intro inv_run inv_init)
  from completes [OF this] obtain rest
    where "sawClosed (pipe_run (sched @ rest) (PipeChan n evs))"
    by (auto simp: pipe_run_append)
  with pipe_safe [OF assms, of "sched @ rest" evs] show ?thesis by blast
qed

text \<open>
  Claim C2. A pipe is opened with a positive capacity; the sender sends the events \<open>evs\<close>
  on \<open>inputCh\<close> and then closes it. Whatever the schedule (so: whatever the pace of the
  reader, and however the two goroutines interleave), the events read from \<open>outputCh\<close> so
  far are the first events of \<open>evs\<close>, in their order; no goroutine panics; when \<open>outputCh\<close>
  is closed, every event has been read already or waits in \<open>outputCh\<close>; a reader that has
  found \<open>outputCh\<close> closed has read exactly \<open>evs\<close>; and whatever has happened, the run can
  go on until the reader has read all of \<open>evs\<close> and found \<open>outputCh\<close> closed (no run gets
  stuck before).
\<close>

theorem C2_pipe_fifo_lossless:
  assumes "1 \<le> n"
  shows "prefix (received (pipe_run sched (PipeChan n evs))) evs
       \<and> \<not> panic (pipe_run sched (PipeChan n evs))
       \<and> (closed (outputCh (pipe_run sched (PipeChan n evs))) \<longrightarrow>
            received (pipe_run sched (PipeChan n evs))
              @ buf (outputCh (pipe_run sched (PipeChan n evs))) = evs)
       \<and> (sawClosed (pipe_run sched (PipeChan n evs)) \<longrightarrow>
            received (pipe_run sched (PipeChan n evs)) = evs)
       \<and> (\<exists>rest. sawClosed (pipe_run (sched @ rest) (PipeChan n evs))
              \<and> received (pipe_run (sched @ rest) (PipeChan n evs)) = evs)"
  using pipe_safe [OF assms, of sched evs] pipe_complete [OF assms, of sched evs] by blast

theorem C2_witness:
  "(1::nat) \<le> 1
   \<and> sawClosed (pipe_run (concat (replicate 10 [Sender, Pump, Pump, Drain, Drain, Reader]))
        (PipeChan 1 [7::nat, 8]))
   \<and> closed (outputCh (pipe_run (concat (replicate 10 [Sender, Pump, Pump, Drain, Drain, Reader]))
        (PipeChan 1 [7::nat, 8])))
   \<and> received (pipe_run (concat (replicate 10 [Sender, Pump, Pump, Drain, Drain, Reader]))
        (PipeChan 1 [7::nat, 8])) = [7, 8]
   \<and> \<not> panic (pipe_run (concat (replicate 10 [Sender, Pump, Pump, Drain, Drain, Reader]))
        (PipeChan 1 [7::nat, 8]))
   \<and> prefix (received (pipe_run [Sender, Pump, Pump, Pump, Sender] (PipeChan 1 [7::nat, 8])))
        [7, 8]"
proof -
  let ?S = "concat (replicate 10 [Sender, Pump, Pump, Drain, Drain, Reader])"
  have n: "(1::nat) \<le> 1" by simp
  have e: "sawClosed (pipe_run ?S (PipeChan 1 [7::nat, 8]))"
    "closed (outputCh (pipe_run ?S (PipeChan 1 [7::nat, 8])))"
    by code_simp+
  from C2_pipe_fifo_lossless [OF n, of ?S "[7, 8]"]
    C2_pipe_fifo_lossless [OF n, of "[Sender, Pump, Pump, Pump, Sender]" "[7, 8]"] e
  show ?thesis by blast
qed

end
